theory Spec2Isabelle
  imports Main "HOL-Library.Word" "HOL-Library.Monad_Syntax"
begin

unbundle bit_operations_syntax

section \<open>Global parameters (same values in scatter and gather)\<close>

text \<open>
  The preprocessor constants of \<^verbatim>\<open>scatter_v1.cpp\<close> and \<^verbatim>\<open>gather_v1.cpp\<close>.
  The plain \<^verbatim>\<open>int\<close> macros are natural numbers; the \<^verbatim>\<open>ULL\<close> macros and the
  \<^verbatim>\<open>uint64_t\<close> tables are 64-bit words, so that every \<open>+\<close>, \<open>-\<close> and \<open>*\<close> on them
  wraps as in the source.  The macros \<^verbatim>\<open>ns\<close>, \<^verbatim>\<open>NS\<close>, \<^verbatim>\<open>n\<close> and \<^verbatim>\<open>N\<close> carry a
  suffix here because one-letter names and \<open>ns\<close> are used for variables.
\<close>

definition BATCH_SIZE :: nat where "BATCH_SIZE = 8 * 1024"
definition DV :: nat where "DV = 8"
definition L :: nat where "L = 5"
definition LC :: nat where "LC = L - 1"
definition LP :: nat where "LP = 10"

definition ns_bytes :: "64 word" where "ns_bytes = 1000000000"
definition NS_bytes :: "64 word" where "NS_bytes = 100000000"

text \<open>\<^verbatim>\<open>#define n ns\<close> (scatter) and \<^verbatim>\<open>#define N (NS - L + 1)\<close> (gather).\<close>

definition n_scatter :: "64 word" where "n_scatter = ns_bytes"
definition N_gather :: "64 word" where "N_gather = NS_bytes - of_nat L + 1"

definition M_COM :: "64 word" where "M_COM = 1000000007"
definition B_COM :: "64 word" where "B_COM = 257"
definition M_DIV :: "64 word" where "M_DIV = 67"

definition B_DIV :: "nat \<Rightarrow> 64 word" where
  "B_DIV i = [257, 263, 269, 271, 277, 281, 283, 293] ! i"

text \<open>
  The lambdas \<^verbatim>\<open>c_com\<close> and \<^verbatim>\<open>c_div\<close>: \<^verbatim>\<open>result = 1\<close>, then \<open>L\<close> times
  \<^verbatim>\<open>result *= B; result %= M\<close>.
\<close>

definition c_com :: "64 word" where
  "c_com = fold (\<lambda>k result. (result * B_COM) mod M_COM) [0..<L] 1"

definition c_div :: "nat \<Rightarrow> 64 word" where
  "c_div i = fold (\<lambda>k result. (result * B_DIV i) mod M_DIV) [0..<L] 1"

definition C_COM :: "64 word" where "C_COM = c_com"

definition C_DIV :: "nat \<Rightarrow> 64 word" where
  "C_DIV i = [c_div 0, c_div 1, c_div 2, c_div 3, c_div 4, c_div 5, c_div 6, c_div 7] ! i"

section \<open>Rolling hash engine: the arithmetic of one step\<close>

text \<open>
  Bytes are \<open>8 word\<close>, hashes in \<^verbatim>\<open>com_hash\<close> are \<open>64 word\<close>, hashes in \<^verbatim>\<open>div_hash\<close>
  are \<open>8 word\<close>.  A byte operand is promoted to 64 bits (\<open>ucast\<close>) before the arithmetic,
  and a diversified hash is truncated to 8 bits when it is stored.

  \<open>com_step\<close> is the body of the Horner loop
  \<^verbatim>\<open>com_hash[0]= (com_hash[0] * B_COM + s[j]) % M_COM\<close>, and \<open>com_roll\<close> the update
  \<^verbatim>\<open>((com_hash[j] + M_COM) * B_COM - C_COM * s[j] + s[j+L]) % M_COM\<close>.
\<close>

definition com_step :: "64 word \<Rightarrow> 8 word \<Rightarrow> 64 word" where
  "com_step h b = (h * B_COM + ucast b) mod M_COM"

definition com_roll :: "64 word \<Rightarrow> 8 word \<Rightarrow> 8 word \<Rightarrow> 64 word" where
  "com_roll h s0 sL = ((h + M_COM) * B_COM - C_COM * ucast s0 + ucast sL) mod M_COM"

text \<open>
  \<open>div_step\<close> is \<^verbatim>\<open>div_hash[id]= (div_hash[id] * B_DIV[id] + s[j]) % M_DIV\<close>.
  \<open>div_roll_pre\<close> is the expression of \<^verbatim>\<open>update_div_hashes\<close> before the modulus,
  \<^verbatim>\<open>256*M_DIV + s[L] + hash[id] * B_DIV[id] - C_DIV[id] * s[0]\<close>; gather writes the same
  sum with \<^verbatim>\<open>t= 256*M_DIV + s[L]\<close> computed once, which is the same term.
\<close>

definition div_step :: "nat \<Rightarrow> 8 word \<Rightarrow> 8 word \<Rightarrow> 8 word" where
  "div_step i h b = ucast ((ucast h * B_DIV i + ucast b) mod M_DIV)"

definition div_roll_pre :: "nat \<Rightarrow> 8 word \<Rightarrow> 8 word \<Rightarrow> 8 word \<Rightarrow> 64 word" where
  "div_roll_pre i h s0 sL = 256 * M_DIV + ucast sL + ucast h * B_DIV i - C_DIV i * ucast s0"

definition div_roll :: "nat \<Rightarrow> 8 word \<Rightarrow> 8 word \<Rightarrow> 8 word \<Rightarrow> 8 word" where
  "div_roll i h s0 sL = ucast (div_roll_pre i h s0 sL mod M_DIV)"

text \<open>
  The hash of one shingle computed from scratch: the Horner loop of \<^verbatim>\<open>hash_batch\<close> run
  over the bytes of the shingle, starting from 0.
\<close>

definition com_horner :: "8 word list \<Rightarrow> 64 word" where
  "com_horner bs = fold (\<lambda>b h. com_step h b) bs 0"

definition div_horner :: "nat \<Rightarrow> 8 word list \<Rightarrow> 8 word" where
  "div_horner i bs = fold (\<lambda>b h. div_step i h b) bs 0"

text \<open>The shingle at offset \<open>j\<close> of a buffer: bytes \<open>j .. j+L-1\<close>.\<close>

definition shingle :: "8 word list \<Rightarrow> nat \<Rightarrow> 8 word list" where
  "shingle s j = take L (drop j s)"

section \<open>Arrays with bounds and counted loops\<close>

text \<open>
  A C array is a list whose length is the declared size.  Reading or writing outside of it
  is undefined behaviour in the source; here it is the value \<open>None\<close>, and the rest of the
  function is not run.  A pointer into an array (\<^verbatim>\<open>&div_hash[j*DV]\<close>, \<^verbatim>\<open>s+j-1\<close>,
  \<^verbatim>\<open>com_ctr_A + LC\<close>) is the array together with an offset.
\<close>

definition rd :: "'a list \<Rightarrow> nat \<Rightarrow> 'a option" where
  "rd xs k = (if k < length xs then Some (xs ! k) else None)"

definition wr :: "'a list \<Rightarrow> nat \<Rightarrow> 'a \<Rightarrow> 'a list option" where
  "wr xs k v = (if k < length xs then Some (xs[k := v]) else None)"

text \<open>\<^verbatim>\<open>for (j= lo; j < hi; j++) body\<close>, stopping at the first access out of bounds.\<close>

definition for_upto :: "nat \<Rightarrow> nat \<Rightarrow> (nat \<Rightarrow> 'st \<Rightarrow> 'st option) \<Rightarrow> 'st \<Rightarrow> 'st option" where
  "for_upto lo hi body st = fold (\<lambda>j acc. Option.bind acc (body j)) [lo..<hi] (Some st)"

section \<open>\<^verbatim>\<open>hash_batch\<close>\<close>

text \<open>
  \<^verbatim>\<open>div_hash[id]= 0; for (j < L) div_hash[id]= (div_hash[id] * B_DIV[id] + s[j]) % M_DIV;
  div_hash[DV+id]= div_hash[id];\<close>
\<close>

definition div_first :: "8 word list \<Rightarrow> nat \<Rightarrow> 8 word list \<Rightarrow> 8 word list option" where
  "div_first s i div_hash = do {
     div_hash \<leftarrow> wr div_hash i 0;
     div_hash \<leftarrow> for_upto 0 L (\<lambda>j dh. do {
        h \<leftarrow> rd dh i;
        b \<leftarrow> rd s j;
        wr dh i (div_step i h b) }) div_hash;
     h \<leftarrow> rd div_hash i;
     wr div_hash (DV + i) h }"

text \<open>
  \<^verbatim>\<open>update_div_hashes(hash, hash1, s)\<close> with \<open>hash = &div_hash[hash_off]\<close>,
  \<open>hash1 = &div_hash[hash1_off]\<close> and \<open>s\<close> the buffer from offset \<open>s_off\<close>:
  \<^verbatim>\<open>hash1[id]= hash[id]= (256*M_DIV + s[L] + hash[id] * B_DIV[id] - C_DIV[id] * s[0]) % M_DIV\<close>.
\<close>

definition update_div_hashes ::
  "nat \<Rightarrow> nat \<Rightarrow> 8 word list \<Rightarrow> nat \<Rightarrow> 8 word list \<Rightarrow> 8 word list option" where
  "update_div_hashes hash_off hash1_off s s_off div_hash =
     for_upto 0 DV (\<lambda>i dh. do {
        sL \<leftarrow> rd s (s_off + L);
        h \<leftarrow> rd dh (hash_off + i);
        s0 \<leftarrow> rd s s_off;
        dh \<leftarrow> wr dh (hash_off + i) (div_roll i h s0 sL);
        wr dh (hash1_off + i) (div_roll i h s0 sL) }) div_hash"

text \<open>
  \<^verbatim>\<open>hash_batch(s, hash_count, com_hash, div_hash)\<close>: first the diversified hashes (the
  leftmost shingle, then the roll from \<open>j = 1\<close>), then the common hashes (the leftmost
  shingle, then the roll from \<open>j = 0\<close>).  The result is the pair of output arrays.
\<close>

definition hash_batch ::
  "8 word list \<Rightarrow> nat \<Rightarrow> 64 word list \<Rightarrow> 8 word list \<Rightarrow> (64 word list \<times> 8 word list) option" where
  "hash_batch s hash_count com_hash div_hash = do {
     div_hash \<leftarrow> for_upto 0 DV (div_first s) div_hash;
     div_hash \<leftarrow> for_upto 1 hash_count
        (\<lambda>j. update_div_hashes (j * DV) ((j + 1) * DV) s (j - 1)) div_hash;
     com_hash \<leftarrow> wr com_hash 0 0;
     com_hash \<leftarrow> for_upto 0 L (\<lambda>j ch. do {
        h \<leftarrow> rd ch 0;
        b \<leftarrow> rd s j;
        wr ch 0 (com_step h b) }) com_hash;
     com_hash \<leftarrow> for_upto 0 hash_count (\<lambda>j ch. do {
        h \<leftarrow> rd ch j;
        s0 \<leftarrow> rd s j;
        sL \<leftarrow> rd s (j + L);
        wr ch (j + 1) (com_roll h s0 sL) }) com_hash;
     Some (com_hash, div_hash) }"

section \<open>The co-filter map\<close>

text \<open>
  The map is the block of \<open>M_COM + M_DIV\<close> bytes obtained from \<^verbatim>\<open>malloc\<close>: a store from
  64-bit indices to bytes, together with its size.  An access at an index outside the block
  is \<open>None\<close>.  \<open>memset_ones\<close> is the store after \<^verbatim>\<open>memset(map, 0b11111111, M_COM + M_DIV)\<close>.
\<close>

type_synonym hash_map = "64 word \<Rightarrow> 8 word"

definition map_size :: "64 word" where
  "map_size = M_COM + M_DIV"

definition memset_ones :: hash_map where
  "memset_ones = (\<lambda>a. 255)"

definition map_rd :: "hash_map \<Rightarrow> 64 word \<Rightarrow> 8 word option" where
  "map_rd m a = (if a < map_size then Some (m a) else None)"

text \<open>\<^verbatim>\<open>map[a] &= ~(1<<id)\<close>: the byte with bit \<open>id\<close> cleared.\<close>

definition clear_bit_at :: "hash_map \<Rightarrow> 64 word \<Rightarrow> nat \<Rightarrow> hash_map option" where
  "clear_bit_at m a i =
     (if a < map_size then Some (m(a := m a AND NOT (push_bit i 1))) else None)"

section \<open>Scatter: the consume step of \<^verbatim>\<open>worker3_thread\<close>\<close>

text \<open>
  \<^verbatim>\<open>for (j= first_batch_j0; j < batch_size; j++)
    for (id= 0; id < DV; id++) map[com_ctr[j] + div_ctr[j*DV+id]] &= ~(1<<id);\<close>
  The prefetch hints have no effect on the result and are left out.
\<close>

definition scatter_consume ::
  "hash_map \<Rightarrow> nat \<Rightarrow> nat \<Rightarrow> 64 word list \<Rightarrow> 8 word list \<Rightarrow> hash_map option" where
  "scatter_consume m first_batch_j0 batch_size com_ctr div_ctr =
     for_upto first_batch_j0 batch_size (\<lambda>j.
       for_upto 0 DV (\<lambda>i m. do {
          c \<leftarrow> rd com_ctr j;
          d \<leftarrow> rd div_ctr (j * DV + i);
          clear_bit_at m (c + ucast d) i })) m"

section \<open>Gather: \<^verbatim>\<open>check_hash\<close> and \<^verbatim>\<open>check_batch\<close>\<close>

text \<open>\<^verbatim>\<open>w= 0; for (id < DV) w |= map[hash[id]] & (1<<id); return w;\<close>\<close>

definition check_hash :: "hash_map \<Rightarrow> 64 word list \<Rightarrow> 8 word option" where
  "check_hash m hash =
     for_upto 0 DV (\<lambda>i w. do {
        a \<leftarrow> rd hash i;
        b \<leftarrow> map_rd m a;
        Some (w OR (b AND push_bit i 1)) }) 0"

text \<open>
  The accumulators of gather: the function-static \<^verbatim>\<open>count\<close> of \<^verbatim>\<open>check_batch\<close> and the
  globals \<^verbatim>\<open>residue\<close> and \<^verbatim>\<open>max_count\<close>.
\<close>

record gather_state =
  count :: "64 word"
  residue :: "64 word"
  max_count :: "64 word"

text \<open>\<^verbatim>\<open>static uint64_t count= 0\<close>, \<^verbatim>\<open>residue= 0\<close> in \<^verbatim>\<open>main\<close>, \<^verbatim>\<open>uint64_t max_count= 0\<close>.\<close>

definition gather_init :: gather_state where
  "gather_init = \<lparr>count = 0, residue = 0, max_count = 0\<rparr>"

text \<open>
  The aggregated hashes of shingle \<open>j\<close>:
  \<^verbatim>\<open>for (id < DV) hash[id]= com_hash[j] + div_hash[j*DV + id]\<close>, where \<open>com_hash\<close> and
  \<open>div_hash\<close> are the pointers \<open>com_ctr + com_off\<close> and \<open>div_ctr + div_off\<close>.
\<close>

definition aggregate ::
  "64 word list \<Rightarrow> nat \<Rightarrow> 8 word list \<Rightarrow> nat \<Rightarrow> nat \<Rightarrow> 64 word list option" where
  "aggregate com_ctr com_off div_ctr div_off j =
     for_upto 0 DV (\<lambda>i hash. do {
        c \<leftarrow> rd com_ctr (com_off + j);
        d \<leftarrow> rd div_ctr (div_off + (j * DV + i));
        wr hash i (c + ucast d) }) (replicate DV 0)"

text \<open>
  The three updates made for one shingle once \<open>w = check_hash(hash)\<close> is known:
  \<^verbatim>\<open>if (w == 0) count++; else count= 0;
  if (count > LP - L) residue++;
  if (count > max_count) max_count= count;\<close>
\<close>

definition run_update :: "8 word \<Rightarrow> gather_state \<Rightarrow> gather_state" where
  "run_update w st =
     (let st = (if w = 0 then st\<lparr>count := count st + 1\<rparr> else st\<lparr>count := 0\<rparr>);
          st = (if count st > of_nat (LP - L) then st\<lparr>residue := residue st + 1\<rparr> else st);
          st = (if count st > max_count st then st\<lparr>max_count := count st\<rparr> else st)
      in st)"

definition check_batch ::
  "hash_map \<Rightarrow> nat \<Rightarrow> 64 word list \<Rightarrow> nat \<Rightarrow> 8 word list \<Rightarrow> nat \<Rightarrow> gather_state
     \<Rightarrow> gather_state option" where
  "check_batch m hash_count com_ctr com_off div_ctr div_off st =
     for_upto 0 hash_count (\<lambda>j st. do {
        hash \<leftarrow> aggregate com_ctr com_off div_ctr div_off j;
        w \<leftarrow> check_hash m hash;
        Some (run_update w st) }) st"

section \<open>Batch bookkeeping of \<^verbatim>\<open>main\<close> and of the workers\<close>

datatype exit_code = Exit nat

text \<open>
  \<^verbatim>\<open>batch_count= n / BATCH_SIZE; if ((n - (batch_count * BATCH_SIZE)) > 0) batch_count++;\<close>
  with \<open>batch_count\<close> a \<^verbatim>\<open>uint32_t\<close>: the quotient is truncated to 32 bits and the product
  \<open>batch_count * BATCH_SIZE\<close> is a 32-bit product.
\<close>

definition batch_count_of :: "64 word \<Rightarrow> 32 word" where
  "batch_count_of tot =
     (let batch_count = (ucast (tot div of_nat BATCH_SIZE) :: 32 word)
      in if tot - ucast (batch_count * of_nat BATCH_SIZE) > 0
         then batch_count + 1 else batch_count)"

text \<open>
  The start of \<^verbatim>\<open>main\<close>: the batch count, \<^verbatim>\<open>if (batch_count < 3) exit(10)\<close>, then the
  allocation of the map with \<^verbatim>\<open>if (map == NULL) exit(11)\<close>.  \<open>map_allocated\<close> is the
  outcome of \<^verbatim>\<open>malloc\<close>.
\<close>

definition main_start :: "64 word \<Rightarrow> bool \<Rightarrow> exit_code + 32 word" where
  "main_start tot map_allocated =
     (let batch_count = batch_count_of tot
      in if batch_count < 3 then Inl (Exit 10)
         else if \<not> map_allocated then Inl (Exit 11)
         else Inr batch_count)"

definition scatter_main_start :: "bool \<Rightarrow> exit_code + 32 word" where
  "scatter_main_start = main_start n_scatter"

definition gather_main_start :: "bool \<Rightarrow> exit_code + 32 word" where
  "gather_main_start = main_start N_gather"

text \<open>
  The prologue shared by the three workers: \<open>(batch_count, last_batch_size, batch_size)\<close>.
\<close>

definition batch_plan :: "64 word \<Rightarrow> 32 word \<times> 32 word \<times> 32 word" where
  "batch_plan tot =
     (let batch_count = (ucast (tot div of_nat BATCH_SIZE) :: 32 word);
          last_batch_size = (ucast (tot - ucast (batch_count * of_nat BATCH_SIZE)) :: 32 word);
          batch_count = (if last_batch_size > 0 then batch_count + 1 else batch_count);
          last_batch_size = (if last_batch_size > 0 then last_batch_size else of_nat BATCH_SIZE);
          batch_size = (if batch_count = 1 then last_batch_size else of_nat BATCH_SIZE)
      in (batch_count, last_batch_size, batch_size))"

text \<open>
  The \<^verbatim>\<open>while (true)\<close> loop of a worker.  The three blocks for the containers A, B and C
  are the same text up to the container, so one round of the model is one block: process
  the batch of \<open>batch_size\<close>, return if \<open>batch_id == batch_count\<close>, else
  \<^verbatim>\<open>if (++batch_id == batch_count) batch_size= last_batch_size\<close>.  The result is the list
  of the batch sizes in the order processed.
\<close>

function batch_sizes :: "32 word \<Rightarrow> 32 word \<Rightarrow> 32 word \<Rightarrow> 32 word \<Rightarrow> 32 word list" where
  "batch_sizes batch_count last_batch_size batch_id batch_size =
     batch_size #
       (if batch_id = batch_count then []
        else batch_sizes batch_count last_batch_size (batch_id + 1)
               (if batch_id + 1 = batch_count then last_batch_size else batch_size))"
  by pat_completeness auto
termination
proof (relation "measure (\<lambda>(batch_count, last_batch_size, batch_id, batch_size).
                            unat (batch_count - batch_id))")
  show "wf (measure (\<lambda>(batch_count :: 32 word, last_batch_size :: 32 word, batch_id :: 32 word,
                         batch_size :: 32 word). unat (batch_count - batch_id)))"
    by simp
next
  fix batch_count last_batch_size batch_id batch_size :: "32 word"
  assume "batch_id \<noteq> batch_count"
  then have nz: "batch_count - batch_id \<noteq> 0" by simp
  have e: "batch_count - (batch_id + 1) = batch_count - batch_id - 1" by simp
  have lt: "unat (batch_count - (batch_id + 1)) < unat (batch_count - batch_id)"
    unfolding e by (rule measure_unat [OF nz])
  show "((batch_count, last_batch_size, batch_id + 1,
          if batch_id + 1 = batch_count then last_batch_size else batch_size),
         (batch_count, last_batch_size, batch_id, batch_size))
       \<in> measure (\<lambda>(batch_count, last_batch_size, batch_id, batch_size).
                    unat (batch_count - batch_id))"
    using lt by simp
qed

definition worker_batches :: "64 word \<Rightarrow> 32 word list" where
  "worker_batches tot =
     (case batch_plan tot of (batch_count, last_batch_size, batch_size) \<Rightarrow>
        batch_sizes batch_count last_batch_size 1 batch_size)"

text \<open>
  Gather's \<^verbatim>\<open>worker1_thread\<close> positions the stream with \<^verbatim>\<open>seekg(ns)\<close> and then reads
  \<open>batch_size\<close> bytes for every batch; a short read ends the process.  The stream position
  after the last read:
\<close>

definition gather_read_end :: nat where
  "gather_read_end = unat ns_bytes + sum_list (map unat (worker_batches N_gather))"

text \<open>
  Scatter's \<^verbatim>\<open>worker3_thread\<close> over the batches handed to it, each with its size and its
  two hash arrays: \<open>first_batch_j0\<close> is \<open>LC\<close> for the first batch and 0 afterwards.
\<close>

fun scatter_worker3 ::
  "hash_map \<Rightarrow> nat \<Rightarrow> (32 word \<times> 64 word list \<times> 8 word list) list \<Rightarrow> hash_map option" where
  "scatter_worker3 m first_batch_j0 [] = Some m"
| "scatter_worker3 m first_batch_j0 ((batch_size, com_ctr, div_ctr) # rest) =
     scatter_consume m first_batch_j0 (unat batch_size) com_ctr div_ctr
       \<bind> (\<lambda>m. scatter_worker3 m 0 rest)"

text \<open>
  Gather's \<^verbatim>\<open>worker3_thread\<close>: the first batch is checked with
  \<^verbatim>\<open>check_batch(batch_size - LC, com_ctr_A + LC, div_ctr_A + LC)\<close>, every later one with
  \<^verbatim>\<open>check_batch(batch_size, com_ctr, div_ctr)\<close>.  The state is handed from one call to the
  next.
\<close>

fun gather_worker3 ::
  "hash_map \<Rightarrow> bool \<Rightarrow> (32 word \<times> 64 word list \<times> 8 word list) list \<Rightarrow> gather_state
     \<Rightarrow> gather_state option" where
  "gather_worker3 m skip_first_carry [] st = Some st"
| "gather_worker3 m skip_first_carry ((batch_size, com_ctr, div_ctr) # rest) st =
     (if skip_first_carry
      then check_batch m (unat (batch_size - of_nat LC)) com_ctr LC div_ctr LC st
      else check_batch m (unat batch_size) com_ctr 0 div_ctr 0 st)
       \<bind> gather_worker3 m False rest"

text \<open>The number of shingles gather hands to \<^verbatim>\<open>check_hash\<close> over the whole run.\<close>

definition gather_hash_counts :: "32 word list" where
  "gather_hash_counts =
     (case worker_batches N_gather of
        [] \<Rightarrow> []
      | batch_size # rest \<Rightarrow> (batch_size - of_nat LC) # rest)"

definition gather_shingles_checked :: nat where
  "gather_shingles_checked = sum_list (map unat gather_hash_counts)"

section \<open>\<^verbatim>\<open>rcp_generator\<close>\<close>

text \<open>
  \<^verbatim>\<open>while (a[rand]) {rand++;}\<close> with \<open>rand\<close> a \<^verbatim>\<open>uint8_t\<close>: the increment wraps from 255
  to 0.  The loop has no bound of its own, so it is a partial function: \<open>None\<close> is the loop
  that never ends.
\<close>

partial_function (option) probe :: "(8 word \<Rightarrow> bool) \<Rightarrow> 8 word \<Rightarrow> 8 word option" where
  "probe a rand = (if a rand then probe a (rand + 1) else Some rand)"

text \<open>
  The filling loop.  \<open>draw j\<close> is the value \<^verbatim>\<open>dist(mt_rand)\<close> returns in round \<open>j\<close>;
  \<open>a\<close> is the array \<^verbatim>\<open>bool a[256]\<close>, indexed by a byte.
\<close>

definition rcp_fill ::
  "(nat \<Rightarrow> 8 word) \<Rightarrow> 8 word list \<Rightarrow> ((8 word \<Rightarrow> bool) \<times> 8 word list) option" where
  "rcp_fill draw p =
     for_upto 0 256 (\<lambda>j (a, p). do {
        rand \<leftarrow> probe a (draw j);
        p \<leftarrow> wr p j rand;
        Some (a(rand := True), p) }) (\<lambda>r. False, p)"

text \<open>
  The test loops: \<^verbatim>\<open>for (j < 256) for (i= j+1; i < 256; i++) if (p[j] == p[i])\<close>.
\<close>

definition rcp_duplicate :: "8 word list \<Rightarrow> bool" where
  "rcp_duplicate p = list_ex (\<lambda>j. list_ex (\<lambda>i. p ! j = p ! i) [j + 1..<256]) [0..<256]"

definition rcp_generator :: "(nat \<Rightarrow> 8 word) \<Rightarrow> 8 word list \<Rightarrow> (exit_code + 8 word list) option" where
  "rcp_generator draw p = do {
     (a, p) \<leftarrow> rcp_fill draw p;
     if rcp_duplicate p then Some (Inl (Exit 25)) else Some (Inr p) }"

section \<open>The run detector as the specification words it\<close>

text \<open>
  Section 4.5 of the specification, for one shingle whose filter result is \<open>pass\<close>
  (\<open>pass\<close> means \<open>w == 0\<close>): (2) if it passes, increment \<open>count\<close>, else reset it to 0;
  (3) if \<open>count > LP - L\<close>, increment \<open>residue\<close>; (4) \<open>max_count = max(max_count, count)\<close>.
  \<open>spec_run\<close> applies this to the shingles in order.
\<close>

definition spec_step :: "bool \<Rightarrow> gather_state \<Rightarrow> gather_state" where
  "spec_step pass st =
     (let c = (if pass then count st + 1 else 0)
      in \<lparr>count = c,
          residue = (if c > of_nat (LP - L) then residue st + 1 else residue st),
          max_count = max (max_count st) c\<rparr>)"

definition spec_run :: "bool list \<Rightarrow> gather_state \<Rightarrow> gather_state" where
  "spec_run passes st = fold spec_step passes st"

text \<open>The values \<open>count\<close> takes, one after each shingle.\<close>

fun count_trace :: "bool list \<Rightarrow> 64 word \<Rightarrow> 64 word list" where
  "count_trace [] c = []"
| "count_trace (pass # passes) c =
     (if pass then c + 1 else 0) # count_trace passes (if pass then c + 1 else 0)"

text \<open>
  The filter result of shingle \<open>j\<close> of a batch as \<^verbatim>\<open>check_batch\<close> computes it, and the
  results of a whole call in order.
\<close>

definition shingle_w ::
  "hash_map \<Rightarrow> 64 word list \<Rightarrow> nat \<Rightarrow> 8 word list \<Rightarrow> nat \<Rightarrow> nat \<Rightarrow> 8 word option" where
  "shingle_w m com_ctr com_off div_ctr div_off j =
     aggregate com_ctr com_off div_ctr div_off j \<bind> check_hash m"

definition batch_passes ::
  "hash_map \<Rightarrow> nat \<Rightarrow> 64 word list \<Rightarrow> nat \<Rightarrow> 8 word list \<Rightarrow> nat \<Rightarrow> bool list" where
  "batch_passes m hash_count com_ctr com_off div_ctr div_off =
     map (\<lambda>j. shingle_w m com_ctr com_off div_ctr div_off j = Some 0) [0..<hash_count]"

section \<open>The round trip of the specification\<close>


section \<open>One first batch through both programs\<close>

text \<open>
  A container whose buffer \<open>buf\<close> holds the \<open>LC\<close> carry bytes and then the bytes of the
  batch, so that the batch has \<open>length buf - LC\<close> shingles.  The buffer is hashed (with the
  one byte and the one hash slot more that \<^verbatim>\<open>hash_batch\<close> touches), scatter's
  \<^verbatim>\<open>worker3_thread\<close> consumes it as its first batch from the map of all ones, and gather's
  \<^verbatim>\<open>worker3_thread\<close> checks the same container as its first batch against the resulting
  map.  The second component is \<^verbatim>\<open>check_batch\<close> on the same shingles with the pointer
  into \<open>div_ctr\<close> advanced by \<open>LC\<close> rows of \<open>DV\<close> bytes.
\<close>

definition first_batch_trip :: "8 word list \<Rightarrow> (gather_state \<times> gather_state) option" where
  "first_batch_trip buf = do {
     let k = length buf - LC;
     (com_ctr, div_ctr) \<leftarrow>
        hash_batch (buf @ [0]) k (replicate (k + 1) 0) (replicate ((k + 1) * DV) 0);
     m \<leftarrow> scatter_worker3 memset_ones LC [(of_nat k, com_ctr, div_ctr)];
     st \<leftarrow> gather_worker3 m True [(of_nat k, com_ctr, div_ctr)] gather_init;
     st_rows \<leftarrow> check_batch m (k - LC) com_ctr LC div_ctr (LC * DV) gather_init;
     Some (st, st_rows) }"
section \<open>Facts about the parameters and the 64-bit arithmetic\<close>

lemma upt8: "[0..<8] = [0, 1, 2, 3, 4, 5, 6, 7]"
  by (simp add: upt_rec)

lemma lt8_cases:
  "i < (8::nat) \<Longrightarrow> i = 0 \<or> i = 1 \<or> i = 2 \<or> i = 3 \<or> i = 4 \<or> i = 5 \<or> i = 6 \<or> i = 7"
  by arith

lemma C_COM_val: "C_COM = 154885210"
  by (simp add: C_COM_def c_com_def L_def B_COM_def M_COM_def upt_rec)

lemma C_DIV_vals: "map C_DIV [0..<8] = [17, 24, 1, 42, 22, 46, 64, 40]"
  by (simp add: upt8 C_DIV_def c_div_def L_def B_DIV_def M_DIV_def upt_rec)

lemma uint_ucast8 [simp]: "uint (ucast (b :: 8 word) :: 64 word) = uint b"
  by (simp add: uint_up_ucast is_up)

lemma uint8_lt: "uint (b :: 8 word) < 256"
  using uint_bounded [of b] by simp

lemma u64_add:
  "uint a + uint b < 18446744073709551616 \<Longrightarrow> uint (a + b :: 64 word) = uint a + uint b"
  using uint_add_lem [of a b] by simp

lemma u64_mul:
  "uint a * uint b < 18446744073709551616 \<Longrightarrow> uint (a * b :: 64 word) = uint a * uint b"
  using uint_mult_lem [of a b] by simp

lemma u64_sub: "uint b \<le> uint a \<Longrightarrow> uint (a - b :: 64 word) = uint a - uint b"
  using uint_sub_lem [of b a] by simp

lemma uint_M_COM: "uint M_COM = 1000000007" by (simp add: M_COM_def)
lemma uint_B_COM: "uint B_COM = 257" by (simp add: B_COM_def)
lemma uint_C_COM: "uint C_COM = 154885210" by (simp add: C_COM_val)
lemma uint_M_DIV: "uint M_DIV = 67" by (simp add: M_DIV_def)

lemma B_DIV_bounds: "i < DV \<Longrightarrow> 257 \<le> uint (B_DIV i) \<and> uint (B_DIV i) \<le> 293"
  using lt8_cases [of i] by (auto simp: DV_def B_DIV_def)

lemma C_DIV_bounds: "i < DV \<Longrightarrow> uint (C_DIV i) \<le> 64"
proof -
  assume "i < DV"
  then have "C_DIV i \<in> set (map C_DIV [0..<8])" by (simp add: DV_def)
  then show ?thesis unfolding C_DIV_vals by auto
qed

text \<open>The constants are the powers they are meant to be: \<open>B ^ L mod M\<close>.\<close>

lemma C_COM_power: "uint C_COM = 257 ^ 5 mod 1000000007"
  by (simp add: uint_C_COM)

lemma C_DIV_power: "i < DV \<Longrightarrow> uint (C_DIV i) = uint (B_DIV i) ^ 5 mod 67"
  using lt8_cases [of i]
  by (auto simp: DV_def C_DIV_def c_div_def L_def B_DIV_def M_DIV_def upt_rec)

subsection \<open>No intermediate result of the roll leaves the 64-bit range\<close>

lemma com_roll_bounds:
  fixes c x y :: int
  assumes "0 \<le> c" "c < 1000000007" "0 \<le> x" "x < 256" "0 \<le> y" "y < 256"
  shows "c + 1000000007 < 18446744073709551616"
    and "(c + 1000000007) * 257 < 18446744073709551616"
    and "154885210 * x < 18446744073709551616"
    and "154885210 * x \<le> (c + 1000000007) * 257"
    and "(c + 1000000007) * 257 - 154885210 * x + y < 18446744073709551616"
  using assms by (simp_all add: algebra_simps)

lemma uint_com_roll:
  assumes "uint c < 1000000007"
  shows "uint (com_roll c s0 sL)
       = ((uint c + 1000000007) * 257 - 154885210 * uint s0 + uint sL) mod 1000000007"
proof -
  note bnd = com_roll_bounds [of "uint c" "uint s0" "uint sL",
      OF uint_ge_0 assms uint_ge_0 uint8_lt uint_ge_0 uint8_lt]
  have 1: "uint (c + M_COM) = uint c + 1000000007"
    by (rule u64_add [of c M_COM, unfolded uint_M_COM]) (rule bnd)
  have 2: "uint ((c + M_COM) * B_COM) = (uint c + 1000000007) * 257"
    by (rule u64_mul [of "c + M_COM" B_COM, unfolded 1 uint_B_COM]) (rule bnd)
  have 3: "uint (C_COM * ucast s0 :: 64 word) = 154885210 * uint s0"
    by (rule u64_mul [of C_COM "ucast s0", unfolded uint_C_COM uint_ucast8]) (rule bnd)
  have 4: "uint ((c + M_COM) * B_COM - C_COM * ucast s0)
         = (uint c + 1000000007) * 257 - 154885210 * uint s0"
    by (rule u64_sub [of "C_COM * ucast s0" "(c + M_COM) * B_COM", unfolded 2 3]) (rule bnd)
  have 5: "uint ((c + M_COM) * B_COM - C_COM * ucast s0 + ucast sL)
         = (uint c + 1000000007) * 257 - 154885210 * uint s0 + uint sL"
    by (rule u64_add [of "(c + M_COM) * B_COM - C_COM * ucast s0" "ucast sL",
          unfolded 4 uint_ucast8]) (rule bnd)
  show ?thesis
    unfolding com_roll_def uint_mod 5 uint_M_COM ..
qed

lemma div_roll_bounds:
  fixes h b x y c :: int
  assumes "0 \<le> h" "h < 256" "257 \<le> b" "b \<le> 293" "0 \<le> x" "x < 256" "0 \<le> y" "y < 256"
    "0 \<le> c" "c \<le> 64"
  shows "256 * 67 + y < 18446744073709551616"
    and "h * b < 18446744073709551616"
    and "256 * 67 + y + h * b < 18446744073709551616"
    and "c * x < 18446744073709551616"
    and "c * x \<le> 256 * 67 + y + h * b"
    and "c * x < 256 * 67"
proof -
  have hb: "h * b \<le> 255 * 293" using assms by (intro mult_mono) auto
  have hb0: "0 \<le> h * b" using assms by simp
  have cx: "c * x \<le> 64 * 255" using assms by (intro mult_mono) auto
  show "256 * 67 + y < 18446744073709551616" using assms by simp
  show "h * b < 18446744073709551616" using hb by simp
  show "256 * 67 + y + h * b < 18446744073709551616" using hb hb0 assms by linarith
  show "c * x < 18446744073709551616" using cx by simp
  show "c * x \<le> 256 * 67 + y + h * b" using cx hb hb0 assms by linarith
  show "c * x < 256 * 67" using cx by simp
qed

lemma uint_div_roll_pre:
  assumes "i < DV"
  shows "uint (div_roll_pre i h s0 sL)
       = 256 * 67 + uint sL + uint h * uint (B_DIV i) - uint (C_DIV i) * uint s0"
proof -
  note B = B_DIV_bounds [OF assms]
  note bnd = div_roll_bounds [of "uint h" "uint (B_DIV i)" "uint s0" "uint sL" "uint (C_DIV i)",
      OF uint_ge_0 uint8_lt B [THEN conjunct1] B [THEN conjunct2]
      uint_ge_0 uint8_lt uint_ge_0 uint8_lt uint_ge_0 C_DIV_bounds [OF assms]]
  have M: "uint (256 * M_DIV) = 256 * 67" by (simp add: M_DIV_def)
  have 1: "uint (256 * M_DIV + ucast sL :: 64 word) = 256 * 67 + uint sL"
    by (rule u64_add [of "256 * M_DIV" "ucast sL", unfolded M uint_ucast8]) (rule bnd)
  have 2: "uint (ucast h * B_DIV i :: 64 word) = uint h * uint (B_DIV i)"
    by (rule u64_mul [of "ucast h" "B_DIV i", unfolded uint_ucast8]) (rule bnd)
  have 3: "uint (256 * M_DIV + ucast sL + ucast h * B_DIV i)
         = 256 * 67 + uint sL + uint h * uint (B_DIV i)"
    by (rule u64_add [of "256 * M_DIV + ucast sL" "ucast h * B_DIV i", unfolded 1 2]) (rule bnd)
  have 4: "uint (C_DIV i * ucast s0 :: 64 word) = uint (C_DIV i) * uint s0"
    by (rule u64_mul [of "C_DIV i" "ucast s0", unfolded uint_ucast8]) (rule bnd)
  show ?thesis
    unfolding div_roll_pre_def
    by (rule u64_sub [of "C_DIV i * ucast s0" "256 * M_DIV + ucast sL + ucast h * B_DIV i",
          unfolded 3 4]) (rule bnd)
qed

lemma C_DIV_times_byte: "i < DV \<Longrightarrow> uint (C_DIV i) * uint (b :: 8 word) < 256 * 67"
  by (rule div_roll_bounds(6) [of "uint b" 257 "uint b" "uint b" "uint (C_DIV i)"])
     (simp_all add: uint8_lt C_DIV_bounds)

section \<open>Horner values and the roll\<close>

lemma uint_com_step:
  assumes "uint h < 1000000007"
  shows "uint (com_step h b) = (uint h * 257 + uint b) mod 1000000007"
proof -
  have m: "uint h * 257 < 18446744073709551616" using assms by simp
  have 1: "uint (h * B_COM) = uint h * 257"
    by (rule u64_mul [of h B_COM, unfolded uint_B_COM]) (rule m)
  have a: "uint h * 257 + uint b < 18446744073709551616"
    using assms uint8_lt [of b] by simp
  have 2: "uint (h * B_COM + ucast b) = uint h * 257 + uint b"
    by (rule u64_add [of "h * B_COM" "ucast b", unfolded 1 uint_ucast8]) (rule a)
  show ?thesis unfolding com_step_def uint_mod 2 uint_M_COM ..
qed

lemma uint_ucast_small:
  fixes w :: "64 word"
  assumes "uint w < 256"
  shows "uint (ucast w :: 8 word) = uint w"
  using assms by (simp add: unsigned_ucast_eq take_bit_int_eq_self)

lemma uint_div_step:
  assumes "i < DV"
  shows "uint (div_step i h b) = (uint h * uint (B_DIV i) + uint b) mod 67"
proof -
  note B = B_DIV_bounds [OF assms]
  have hb: "uint h * uint (B_DIV i) \<le> 255 * 293"
    using uint8_lt [of h] B by (intro mult_mono) simp_all
  have hb0: "0 \<le> uint h * uint (B_DIV i)" by simp
  have 1: "uint (ucast h * B_DIV i :: 64 word) = uint h * uint (B_DIV i)"
    by (rule u64_mul [of "ucast h" "B_DIV i", unfolded uint_ucast8]) (use hb in simp)
  have a: "uint h * uint (B_DIV i) + uint b < 18446744073709551616"
    using hb uint8_lt [of b] by linarith
  have 2: "uint (ucast h * B_DIV i + ucast b :: 64 word) = uint h * uint (B_DIV i) + uint b"
    by (rule u64_add [of "ucast h * B_DIV i" "ucast b", unfolded 1 uint_ucast8]) (rule a)
  have 3: "uint ((ucast h * B_DIV i + ucast b) mod M_DIV) = (uint h * uint (B_DIV i) + uint b) mod 67"
    unfolding uint_mod 2 uint_M_DIV ..
  have "(uint h * uint (B_DIV i) + uint b) mod 67 < 67" by simp
  then have "uint ((ucast h * B_DIV i + ucast b) mod M_DIV) < 256" unfolding 3 by linarith
  from uint_ucast_small [OF this] show ?thesis unfolding div_step_def 3 .
qed

lemma uint_div_roll:
  assumes "i < DV"
  shows "uint (div_roll i h s0 sL)
       = (256 * 67 + uint sL + uint h * uint (B_DIV i) - uint (C_DIV i) * uint s0) mod 67"
proof -
  have 3: "uint (div_roll_pre i h s0 sL mod M_DIV) 
     = (256 * 67 + uint sL + uint h * uint (B_DIV i) - uint (C_DIV i) * uint s0) mod 67"
    unfolding uint_mod uint_div_roll_pre [OF assms] uint_M_DIV ..
  have "(256 * 67 + uint sL + uint h * uint (B_DIV i) - uint (C_DIV i) * uint s0) mod 67 < 67" by simp
  then have "uint (div_roll_pre i h s0 sL mod M_DIV) < 256" unfolding 3 by linarith
  from uint_ucast_small [OF this] show ?thesis unfolding div_roll_def 3 .
qed

text \<open>Horner's rule over the integers.\<close>

lemma horner_int_acc:
  fixes B a :: int
  shows "fold (\<lambda>b a. a * B + uint b) bs a = a * B ^ length bs + fold (\<lambda>b a. a * B + uint b) bs 0"
proof (induction bs arbitrary: a)
  case Nil
  show ?case by simp
next
  case (Cons b bs)
  have "fold (\<lambda>b a. a * B + uint b) (b # bs) a = (a * B + uint b) * B ^ length bs + fold (\<lambda>b a. a * B + uint b) bs 0"
    using Cons.IH [of "a * B + uint b"] by simp
  moreover have "fold (\<lambda>b a. a * B + uint b) (b # bs) 0 = uint b * B ^ length bs + fold (\<lambda>b a. a * B + uint b) bs 0"
    using Cons.IH [of "uint b"] by simp
  ultimately show ?case by (simp add: algebra_simps)
qed

lemma horner_int_mod:
  fixes B M a :: int
  shows "fold (\<lambda>b a. a * B + uint b) bs (a mod M) mod M = fold (\<lambda>b a. a * B + uint b) bs a mod M"
proof -
  have "(a mod M * B ^ length bs + fold (\<lambda>b a. a * B + uint b) bs 0) mod M 
      = (a * B ^ length bs + fold (\<lambda>b a. a * B + uint b) bs 0) mod M"
    by (rule mod_add_cong [OF mod_mult_left_eq refl])
  then show ?thesis
    using horner_int_acc [of B bs a] horner_int_acc [of B bs "a mod M"] by simp
qed

lemma uint_com_fold:
  assumes "uint h < 1000000007"
  shows "uint (fold (\<lambda>b h. com_step h b) bs h) 
       = fold (\<lambda>b a. a * 257 + uint b) bs (uint h) mod 1000000007"
  using assms
proof (induction bs arbitrary: h)
  case Nil
  then show ?case by simp
next
  case (Cons b bs)
  have lt: "uint (com_step h b) < 1000000007"
    unfolding uint_com_step [OF Cons.prems] by simp
  show ?case
    using Cons.IH [OF lt] horner_int_mod [of 257 bs "uint h * 257 + uint b" 1000000007]
    by (simp add: uint_com_step [OF Cons.prems])
qed

lemma uint_com_horner:
  "uint (com_horner bs) = fold (\<lambda>b a. a * 257 + uint b) bs 0 mod 1000000007"
  unfolding com_horner_def using uint_com_fold [of 0 bs] by simp

lemma uint_div_fold:
  assumes "i < DV"
  shows "uint (fold (\<lambda>b h. div_step i h b) bs h) 
       = (if bs = [] then uint h else fold (\<lambda>b a. a * uint (B_DIV i) + uint b) bs (uint h) mod 67)"
proof (induction bs arbitrary: h)
  case Nil
  then show ?case by simp
next
  case (Cons b bs)
  show ?case
    using Cons.IH [of "div_step i h b"] 
      horner_int_mod [of "uint (B_DIV i)" bs "uint h * uint (B_DIV i) + uint b" 67]
    by (simp add: uint_div_step [OF assms])
qed

lemma uint_div_horner:
  "i < DV \<Longrightarrow> uint (div_horner i bs) = fold (\<lambda>b a. a * uint (B_DIV i) + uint b) bs 0 mod 67"
  unfolding div_horner_def using uint_div_fold [of i bs 0] by simp

lemma roll_cong_com:
  fixes A M B C C' x y :: int
  assumes "C mod M = C' mod M"
  shows "((A mod M + M) * B - C * x + y) mod M = (A * B - C' * x + y) mod M"
proof -
  have 1: "((A mod M + M) * B) mod M = (A * B) mod M"
    by (rule mod_mult_cong) simp_all
  have 2: "(C * x) mod M = (C' * x) mod M"
    by (rule mod_mult_cong [OF assms refl])
  show ?thesis
    by (intro mod_add_cong mod_diff_cong 1 2 refl)
qed

lemma roll_cong_div:
  fixes A M B C C' x y K :: int
  assumes "C mod M = C' mod M"
  shows "(K * M + y + (A mod M) * B - C * x) mod M = (A * B - C' * x + y) mod M"
proof -
  have 1: "((A mod M) * B) mod M = (A * B) mod M"
    by (rule mod_mult_cong) simp_all
  have 2: "(C * x) mod M = (C' * x) mod M"
    by (rule mod_mult_cong [OF assms refl])
  have 3: "(K * M + y) mod M = y mod M" by simp
  have "(K * M + y + (A mod M) * B - C * x) mod M = (y + A * B - C' * x) mod M"
    by (intro mod_add_cong mod_diff_cong 1 2 3)
  then show ?thesis by (simp add: algebra_simps)
qed

lemma horner_int_shift:
  fixes B :: int
  shows "fold (\<lambda>b a. a * B + uint b) (x # xs) 0 * B - B ^ Suc (length xs) * uint x + uint y
       = fold (\<lambda>b a. a * B + uint b) (xs @ [y]) 0"
  using horner_int_acc [of B xs "uint x"] by (simp add: algebra_simps)

lemma com_roll_horner:
  assumes "length xs = 4"
  shows "com_roll (com_horner (x # xs)) x y = com_horner (xs @ [y])"
proof (rule word_uint_eqI)
  let ?f = "\<lambda>b a. a * 257 + uint b"
  have lt: "uint (com_horner (x # xs)) < 1000000007"
    unfolding uint_com_horner by simp
  have C: "(154885210 :: int) mod 1000000007 = 257 ^ Suc (length xs) mod 1000000007"
    using assms by simp
  have "uint (com_roll (com_horner (x # xs)) x y)
      = ((fold ?f (x # xs) 0 mod 1000000007 + 1000000007) * 257 - 154885210 * uint x + uint y) mod 1000000007"
    unfolding uint_com_roll [OF lt] uint_com_horner ..
  also have "\<dots> = (fold ?f (x # xs) 0 * 257 - 257 ^ Suc (length xs) * uint x + uint y) mod 1000000007"
    by (rule roll_cong_com [OF C])
  also have "\<dots> = fold ?f (xs @ [y]) 0 mod 1000000007"
    unfolding horner_int_shift ..
  finally show "uint (com_roll (com_horner (x # xs)) x y) = uint (com_horner (xs @ [y]))"
    unfolding uint_com_horner .
qed

lemma div_roll_horner:
  assumes "i < DV" "length xs = 4"
  shows "div_roll i (div_horner i (x # xs)) x y = div_horner i (xs @ [y])"
proof (rule word_uint_eqI)
  let ?B = "uint (B_DIV i)"
  let ?f = "\<lambda>b a. a * ?B + uint b"
  have C: "uint (C_DIV i) mod 67 = ?B ^ Suc (length xs) mod 67"
    using assms by (simp add: C_DIV_power)
  have "uint (div_roll i (div_horner i (x # xs)) x y)
      = (256 * 67 + uint y + (fold ?f (x # xs) 0 mod 67) * ?B - uint (C_DIV i) * uint x) mod 67"
    unfolding uint_div_roll [OF assms(1)] uint_div_horner [OF assms(1)] ..
  also have "\<dots> = (fold ?f (x # xs) 0 * ?B - ?B ^ Suc (length xs) * uint x + uint y) mod 67"
    by (rule roll_cong_div [OF C])
  also have "\<dots> = fold ?f (xs @ [y]) 0 mod 67"
    unfolding horner_int_shift ..
  finally show "uint (div_roll i (div_horner i (x # xs)) x y) = uint (div_horner i (xs @ [y]))"
    unfolding uint_div_horner [OF assms(1)] .
qed

lemma shingle_Cons:
  assumes "j + L < length s"
  shows "shingle s j = s ! j # take 4 (drop (Suc j) s)"
    and "shingle s (Suc j) = take 4 (drop (Suc j) s) @ [s ! (j + L)]"
    and "length (take 4 (drop (Suc j) s)) = 4"
proof -
  have j: "j < length s" using assms by simp
  show "shingle s j = s ! j # take 4 (drop (Suc j) s)"
    unfolding shingle_def L_def
    by (simp add: Cons_nth_drop_Suc [OF j, symmetric] numeral_eq_Suc)
  have k: "4 < length (drop (Suc j) s)" using assms by (simp add: L_def)
  have "take (Suc 4) (drop (Suc j) s) = take 4 (drop (Suc j) s) @ [drop (Suc j) s ! 4]"
    by (rule take_Suc_conv_app_nth [OF k])
  moreover have "drop (Suc j) s ! 4 = s ! (j + L)" using assms by (simp add: L_def add.commute)
  ultimately show "shingle s (Suc j) = take 4 (drop (Suc j) s) @ [s ! (j + L)]"
    unfolding shingle_def L_def by simp
  show "length (take 4 (drop (Suc j) s)) = 4" using assms by (simp add: L_def)
qed

lemma com_roll_shingle:
  assumes "j + L < length s"
  shows "com_roll (com_horner (shingle s j)) (s ! j) (s ! (j + L)) = com_horner (shingle s (Suc j))"
  using shingle_Cons [OF assms] com_roll_horner by simp

lemma div_roll_shingle:
  assumes "j + L < length s" "i < DV"
  shows "div_roll i (div_horner i (shingle s j)) (s ! j) (s ! (j + L)) = div_horner i (shingle s (Suc j))"
  using shingle_Cons [OF assms(1)] div_roll_horner [OF assms(2)] by simp

section \<open>The batch count\<close>

lemma ceil_div:
  fixes x b :: nat
  assumes "0 < b"
  shows "(x + b - 1) div b = x div b + (if x mod b = 0 then 0 else 1)"
proof -
  define q where "q = x div b"
  define r where "r = x mod b"
  have x: "x = r + q * b" and r: "r < b" using assms by (simp_all add: q_def r_def)
  define c where "c = r + b - 1"
  have e: "x + b - 1 = c + q * b" using assms x by (simp add: c_def)
  have "(c + q * b) div b = c div b + q" using assms by simp
  then have 1: "(x + b - 1) div b = (r + b - 1) div b + q"
    unfolding e c_def .
  have 2: "(r + b - 1) div b = (if r = 0 then 0 else 1)"
  proof (cases "r = 0")
    case True
    have "(b - 1) div b = 0" using assms by (intro div_less) linarith
    then show ?thesis using True by simp
  next
    case False
    then have e2: "r + b - 1 = (r - 1) + b" by linarith
    have lt: "r - 1 < b" using r by linarith
    have "((r - 1) + b) div b = 1" using lt assms by (simp only: div_add_self2) simp
    then show ?thesis using False e2 by simp
  qed
  show ?thesis unfolding 1 2 by (simp add: q_def r_def)
qed

lemma unat_quot:
  fixes tot :: "64 word"
  assumes "unat tot < 2 ^ 32"
  shows "unat (ucast (tot div of_nat BATCH_SIZE) :: 32 word) = unat tot div 8192"
proof -
  have "unat (tot div of_nat BATCH_SIZE) = unat tot div 8192"
    by (simp add: unat_div BATCH_SIZE_def)
  moreover have "unat tot div 8192 < 2 ^ 32" using assms by simp
  ultimately show ?thesis
    by (simp add: unsigned_ucast_eq take_bit_nat_eq_self)
qed

lemma unat_quot_mult:
  fixes tot :: "64 word"
  assumes "unat tot < 2 ^ 32"
  shows "unat (ucast ((ucast (tot div of_nat BATCH_SIZE) :: 32 word) * of_nat BATCH_SIZE) :: 64 word)
           = unat tot div 8192 * 8192"
proof -
  have le: "unat tot div 8192 * 8192 \<le> unat tot" by simp
  then have lt: "unat tot div 8192 * 8192 < 2 ^ 32" using assms by linarith
  have B: "unat (of_nat BATCH_SIZE :: 32 word) = 8192" by (simp add: BATCH_SIZE_def)
  have "unat ((ucast (tot div of_nat BATCH_SIZE) :: 32 word) * of_nat BATCH_SIZE) = unat tot div 8192 * 8192"
    using lt unat_mult_lem [of "ucast (tot div of_nat BATCH_SIZE) :: 32 word" "of_nat BATCH_SIZE"]
    unfolding unat_quot [OF assms] B by simp
  then show ?thesis
    using lt by (simp add: unsigned_ucast_eq take_bit_nat_eq_self)
qed

lemma batch_count_of_unat:
  fixes tot :: "64 word"
  assumes "unat tot < 2 ^ 32"
  shows "unat (batch_count_of tot) = unat tot div BATCH_SIZE + (if unat tot mod BATCH_SIZE = 0 then 0 else 1)"
proof -
  let ?q = "ucast (tot div of_nat BATCH_SIZE) :: 32 word"
  have q: "unat ?q = unat tot div 8192" by (rule unat_quot [OF assms])
  have m: "unat (ucast (?q * of_nat BATCH_SIZE) :: 64 word) = unat tot div 8192 * 8192"
    by (rule unat_quot_mult [OF assms])
  have le: "ucast (?q * of_nat BATCH_SIZE) \<le> tot"
    by (simp add: word_le_nat_alt m)
  have d: "unat (tot - ucast (?q * of_nat BATCH_SIZE)) = unat tot mod 8192"
    unfolding unat_sub [OF le] m by (simp add: minus_div_mult_eq_mod)
  have pos: "(tot - ucast (?q * of_nat BATCH_SIZE) > 0) = (unat tot mod 8192 \<noteq> 0)"
    unfolding word_less_nat_alt d by simp
  have q1: "unat (?q + 1) = unat tot div 8192 + 1"
  proof -
    have "unat tot div 8192 + 1 < 2 ^ 32" using assms by simp
    then show ?thesis
      using unat_add_lem [of ?q 1] unfolding q by simp
  qed
  show ?thesis
  proof (cases "unat tot mod 8192 = 0")
    case True
    then have "batch_count_of tot = ?q"
      unfolding batch_count_of_def Let_def pos by simp
    then have "unat (batch_count_of tot) = unat tot div 8192" by (simp only: q)
    with True show ?thesis by (simp add: BATCH_SIZE_def)
  next
    case False
    then have "batch_count_of tot = ?q + 1"
      unfolding batch_count_of_def Let_def pos by simp
    then have "unat (batch_count_of tot) = unat tot div 8192 + 1" by (simp only: q1)
    with False show ?thesis by (simp add: BATCH_SIZE_def)
  qed
qed

section \<open>Counted loops and \<^verbatim>\<open>hash_batch\<close>\<close>

lemma fold_bind_None: "fold (\<lambda>j acc. Option.bind acc (body j)) js None = None"
  by (induction js) simp_all

lemma for_upto_empty: "hi \<le> lo \<Longrightarrow> for_upto lo hi body st = Some st"
  by (simp add: for_upto_def)

lemma for_upto_Suc:
  "lo \<le> hi \<Longrightarrow> for_upto lo (Suc hi) body st = Option.bind (for_upto lo hi body st) (body hi)"
  by (simp add: for_upto_def)

lemma for_upto_rule:
  assumes "lo \<le> hi" and "I lo st"
    and step: "\<And>j x. lo \<le> j \<Longrightarrow> j < hi \<Longrightarrow> I j x \<Longrightarrow>
                 (case body j x of None \<Rightarrow> \<not> ok j | Some y \<Rightarrow> ok j \<and> I (Suc j) y)"
  shows "case for_upto lo hi body st of
           None \<Rightarrow> \<exists>j. lo \<le> j \<and> j < hi \<and> \<not> ok j
         | Some st' \<Rightarrow> (\<forall>j. lo \<le> j \<and> j < hi \<longrightarrow> ok j) \<and> I hi st'"
  using assms(1) step
proof (induction hi)
  case 0
  then show ?case using assms(2) by (simp add: for_upto_empty)
next
  case (Suc hi)
  show ?case
  proof (cases "lo = Suc hi")
    case True
    then show ?thesis using assms(2) by (auto simp: for_upto_empty)
  next
    case False
    then have le: "lo \<le> hi" using Suc.prems(1) by simp
    have IH: "case for_upto lo hi body st of
           None \<Rightarrow> \<exists>j. lo \<le> j \<and> j < hi \<and> \<not> ok j
         | Some st' \<Rightarrow> (\<forall>j. lo \<le> j \<and> j < hi \<longrightarrow> ok j) \<and> I hi st'"
      by (rule Suc.IH [OF le]) (use Suc.prems(2) in simp)
    show ?thesis
    proof (cases "for_upto lo hi body st")
      case None
      then show ?thesis using IH by (auto simp: for_upto_Suc [OF le] intro: less_SucI)
    next
      case (Some x)
      then have ok: "\<forall>j. lo \<le> j \<and> j < hi \<longrightarrow> ok j" and I: "I hi x" using IH by simp_all
      have st: "case body hi x of None \<Rightarrow> \<not> ok hi | Some y \<Rightarrow> ok hi \<and> I (Suc hi) y"
        by (rule Suc.prems(2) [OF le _ I]) simp
      show ?thesis
      proof (cases "body hi x")
        case None
        then show ?thesis using st le Some by (auto simp: for_upto_Suc [OF le])
      next
        case (Some y)
        then show ?thesis using st ok \<open>for_upto lo hi body st = Some x\<close>
          by (auto simp: for_upto_Suc [OF le] less_Suc_eq)
      qed
    qed
  qed
qed

lemma all_upto_less:
  fixes lo hi c n :: nat
  shows "(\<forall>j. lo \<le> j \<and> j < hi \<longrightarrow> j + c < n) = (hi \<le> lo \<or> hi + c \<le> n)"
proof (cases "hi \<le> lo")
  case True
  then show ?thesis by auto
next
  case False
  then have "lo \<le> hi - 1 \<and> hi - 1 < hi" by simp
  moreover have "(hi - 1 + c < n) = (hi + c \<le> n)" using False by auto
  ultimately show ?thesis using False
    by (metis (no_types, lifting) add_less_mono1 less_le_trans)
qed

lemma all_upto_less':
  fixes lo hi c n :: nat
  shows "(\<forall>j. lo \<le> j \<and> j < hi \<longrightarrow> c + j < n) = (hi \<le> lo \<or> c + hi \<le> n)"
  using all_upto_less [of lo hi c n] by (simp add: add.commute)

lemma L_pos: "0 < L" by (simp add: L_def)
lemma DV_pos: "0 < DV" by (simp add: DV_def)

lemma shingle_0: "shingle s 0 = take L s"
  by (simp add: shingle_def)

lemma fold_take_Suc:
  "j < length s \<Longrightarrow> fold f (take (Suc j) s) a = f (s ! j) (fold f (take j s) a)"
  by (simp add: take_Suc_conv_app_nth)

text \<open>The Horner loop for the leftmost common hash.\<close>

lemma com_first_loop:
  assumes "0 < length ch"
  shows "case for_upto 0 L (\<lambda>j ch. do {
                 h \<leftarrow> rd ch 0; b \<leftarrow> rd s j; wr ch 0 (com_step h b) }) (ch[0 := 0]) of
           None \<Rightarrow> \<not> L \<le> length s
         | Some ch' \<Rightarrow> L \<le> length s \<and> ch' = ch[0 := com_horner (shingle s 0)]"
proof -
  let ?body = "\<lambda>j ch. do { h \<leftarrow> rd ch 0; b \<leftarrow> rd s j; wr ch 0 (com_step h b) }"
  let ?I = "\<lambda>j x. x = ch[0 := fold (\<lambda>b h. com_step h b) (take j s) 0]"
  have "case for_upto 0 L ?body (ch[0 := 0]) of
           None \<Rightarrow> \<exists>j. 0 \<le> j \<and> j < L \<and> \<not> j < length s
         | Some st' \<Rightarrow> (\<forall>j. 0 \<le> j \<and> j < L \<longrightarrow> j < length s) \<and> ?I L st'"
  proof (rule for_upto_rule [where I = ?I and ok = "\<lambda>j. j < length s"])
    show "0 \<le> L" by simp
    show "?I 0 (ch[0 := 0])" by simp
    fix j x
    assume "?I j x"
    then show "case ?body j x of None \<Rightarrow> \<not> j < length s
               | Some y \<Rightarrow> j < length s \<and> ?I (Suc j) y"
      using assms by (simp add: rd_def wr_def fold_take_Suc)
  qed
  moreover have "(\<forall>j. 0 \<le> j \<and> j < L \<longrightarrow> j < length s) = (L \<le> length s)"
    using all_upto_less [of 0 L 0 "length s"] L_pos by simp
  moreover have "L \<le> length s \<Longrightarrow> fold (\<lambda>b h. com_step h b) (take L s) 0 = com_horner (shingle s 0)"
    by (simp add: com_horner_def shingle_0)
  ultimately show ?thesis
    by (auto split: option.splits)
qed

text \<open>The roll of the common hashes.\<close>

lemma com_roll_loop:
  assumes len: "length ch = n0" and first: "ch ! 0 = com_horner (shingle s 0)"
  shows "case for_upto 0 n (\<lambda>j ch. do {
                 h \<leftarrow> rd ch j; s0 \<leftarrow> rd s j; sL \<leftarrow> rd s (j + L);
                 wr ch (j + 1) (com_roll h s0 sL) }) ch of
           None \<Rightarrow> \<not> (n = 0 \<or> n < n0 \<and> n + L \<le> length s)
         | Some ch' \<Rightarrow> (n = 0 \<or> n < n0 \<and> n + L \<le> length s) \<and> length ch' = n0
               \<and> (\<forall>k\<le>n. ch' ! k = com_horner (shingle s k))
               \<and> (\<forall>k>n. ch' ! k = ch ! k)"
proof -
  let ?body = "\<lambda>j ch. do { h \<leftarrow> rd ch j; s0 \<leftarrow> rd s j; sL \<leftarrow> rd s (j + L);
                 wr ch (j + 1) (com_roll h s0 sL) }"
  let ?I = "\<lambda>j x. length x = n0 \<and> (\<forall>k\<le>j. x ! k = com_horner (shingle s k)) \<and> (\<forall>k>j. x ! k = ch ! k)"
  let ?ok = "\<lambda>j. j + 1 < n0 \<and> j + L < length s"
  have "case for_upto 0 n ?body ch of
           None \<Rightarrow> \<exists>j. 0 \<le> j \<and> j < n \<and> \<not> ?ok j
         | Some st' \<Rightarrow> (\<forall>j. 0 \<le> j \<and> j < n \<longrightarrow> ?ok j) \<and> ?I n st'"
  proof (rule for_upto_rule [where I = ?I and ok = ?ok])
    show "0 \<le> n" by simp
    show "?I 0 ch" using len first by simp
    fix j x
    assume I: "?I j x"
    show "case ?body j x of None \<Rightarrow> \<not> ?ok j | Some y \<Rightarrow> ?ok j \<and> ?I (Suc j) y"
    proof (cases "?ok j")
      case False
      then show ?thesis using I L_pos by (auto simp: rd_def wr_def)
    next
      case True
      then have b: "?body j x = Some (x[j + 1 := com_roll (x ! j) (s ! j) (s ! (j + L))])"
        using I L_pos by (simp add: rd_def wr_def)
      have r: "com_roll (x ! j) (s ! j) (s ! (j + L)) = com_horner (shingle s (j + 1))"
        using I True com_roll_shingle [of j s] by simp
      show ?thesis
        unfolding b r using I True by (auto simp: nth_list_update le_Suc_eq)
    qed
  qed
  moreover have "(\<forall>j. 0 \<le> j \<and> j < n \<longrightarrow> ?ok j) = (n = 0 \<or> n < n0 \<and> n + L \<le> length s)"
    using all_upto_less [of 0 n 1 n0] all_upto_less [of 0 n L "length s"] by auto
  ultimately show ?thesis
    by (auto split: option.splits)
qed

text \<open>The leftmost diversified hash of one co-filter.\<close>

lemma div_first_eq:
  "div_first s i dh =
     (if DV + i < length dh \<and> L \<le> length s
      then Some (dh[i := div_horner i (shingle s 0), DV + i := div_horner i (shingle s 0)])
      else None)"
proof (cases "i < length dh")
  case False
  then show ?thesis by (simp add: div_first_def wr_def)
next
  case True
  let ?body = "\<lambda>j dh. do { h \<leftarrow> rd dh i; b \<leftarrow> rd s j; wr dh i (div_step i h b) }"
  let ?I = "\<lambda>j x. x = dh[i := fold (\<lambda>b h. div_step i h b) (take j s) 0]"
  have loop: "case for_upto 0 L ?body (dh[i := 0]) of
           None \<Rightarrow> \<exists>j. 0 \<le> j \<and> j < L \<and> \<not> j + 0 < length s
         | Some st' \<Rightarrow> (\<forall>j. 0 \<le> j \<and> j < L \<longrightarrow> j + 0 < length s) \<and> ?I L st'"
  proof (rule for_upto_rule [where I = ?I and ok = "\<lambda>j. j + 0 < length s"])
    show "0 \<le> L" by simp
    show "?I 0 (dh[i := 0])" by simp
    fix j x
    assume "?I j x"
    then show "case ?body j x of None \<Rightarrow> \<not> j + 0 < length s
               | Some y \<Rightarrow> j + 0 < length s \<and> ?I (Suc j) y"
      using True by (simp add: rd_def wr_def fold_take_Suc)
  qed
  have ok: "(\<forall>j. 0 \<le> j \<and> j < L \<longrightarrow> j + 0 < length s) = (L \<le> length s)"
    using all_upto_less [of 0 L 0 "length s"] L_pos by simp
  have v: "L \<le> length s \<Longrightarrow> fold (\<lambda>b h. div_step i h b) (take L s) 0 = div_horner i (shingle s 0)"
    by (simp add: div_horner_def shingle_0)
  show ?thesis
  proof (cases "for_upto 0 L ?body (dh[i := 0])")
    case None
    then have "\<not> L \<le> length s" using loop ok by auto
    then show ?thesis using None True by (simp add: div_first_def wr_def)
  next
    case (Some x)
    then have "L \<le> length s" and "x = dh[i := div_horner i (shingle s 0)]"
      using loop ok v by auto
    then show ?thesis using Some True by (simp add: div_first_def wr_def rd_def)
  qed
qed

lemma div_first_loop:
  assumes "length dh = n0"
  shows "case for_upto 0 DV (div_first s) dh of
           None \<Rightarrow> \<not> (2 * DV \<le> n0 \<and> L \<le> length s)
         | Some dh' \<Rightarrow> 2 * DV \<le> n0 \<and> L \<le> length s \<and> length dh' = n0
               \<and> (\<forall>i<DV. dh' ! i = div_horner i (shingle s 0)
                         \<and> dh' ! (DV + i) = div_horner i (shingle s 0))"
proof -
  let ?I = "\<lambda>k x. length x = n0 \<and> (\<forall>i<k. x ! i = div_horner i (shingle s 0)
                         \<and> x ! (DV + i) = div_horner i (shingle s 0))"
  let ?ok = "\<lambda>i. i + DV < n0 \<and> L \<le> length s"
  have "case for_upto 0 DV (div_first s) dh of
           None \<Rightarrow> \<exists>j. 0 \<le> j \<and> j < DV \<and> \<not> ?ok j
         | Some st' \<Rightarrow> (\<forall>j. 0 \<le> j \<and> j < DV \<longrightarrow> ?ok j) \<and> ?I DV st'"
  proof (rule for_upto_rule [where I = ?I and ok = ?ok])
    show "0 \<le> DV" by simp
    show "?I 0 dh" using assms by simp
    fix j x
    assume I: "?I j x" and j: "j < DV"
    show "case div_first s j x of None \<Rightarrow> \<not> ?ok j | Some y \<Rightarrow> ?ok j \<and> ?I (Suc j) y"
      unfolding div_first_eq using I j
      by (auto simp: nth_list_update less_Suc_eq add.commute)
  qed
  moreover have "(\<forall>j. 0 \<le> j \<and> j < DV \<longrightarrow> ?ok j) = (2 * DV \<le> n0 \<and> L \<le> length s)"
    using all_upto_less [of 0 DV DV n0] DV_pos by auto
  ultimately show ?thesis
    by (auto split: option.splits)
qed

text \<open>One call of \<open>update_div_hashes\<close>, with the second block after the first.\<close>

lemma update_div_hashes_rule:
  assumes sep: "ho + DV \<le> h1o"
  shows "case update_div_hashes ho h1o s so dh of
           None \<Rightarrow> \<not> (h1o + DV \<le> length dh \<and> so + L < length s)
         | Some dh' \<Rightarrow> h1o + DV \<le> length dh \<and> so + L < length s \<and> length dh' = length dh
               \<and> (\<forall>i<DV. dh' ! (ho + i) = div_roll i (dh ! (ho + i)) (s ! so) (s ! (so + L))
                         \<and> dh' ! (h1o + i) = div_roll i (dh ! (ho + i)) (s ! so) (s ! (so + L)))
               \<and> (\<forall>k<ho. dh' ! k = dh ! k)"
proof -
  let ?r = "\<lambda>i. div_roll i (dh ! (ho + i)) (s ! so) (s ! (so + L))"
  let ?body = "\<lambda>i dh. do {
        sL \<leftarrow> rd s (so + L);
        h \<leftarrow> rd dh (ho + i);
        s0 \<leftarrow> rd s so;
        dh \<leftarrow> wr dh (ho + i) (div_roll i h s0 sL);
        wr dh (h1o + i) (div_roll i h s0 sL) }"
  let ?I = "\<lambda>k x. length x = length dh
               \<and> (\<forall>i<k. x ! (ho + i) = ?r i \<and> x ! (h1o + i) = ?r i)
               \<and> (\<forall>i. k \<le> i \<and> i < DV \<longrightarrow> x ! (ho + i) = dh ! (ho + i))
               \<and> (\<forall>k<ho. x ! k = dh ! k)"
  let ?ok = "\<lambda>i. h1o + i < length dh \<and> so + L < length s"
  have "case for_upto 0 DV ?body dh of
           None \<Rightarrow> \<exists>j. 0 \<le> j \<and> j < DV \<and> \<not> ?ok j
         | Some st' \<Rightarrow> (\<forall>j. 0 \<le> j \<and> j < DV \<longrightarrow> ?ok j) \<and> ?I DV st'"
  proof (rule for_upto_rule [where I = ?I and ok = ?ok])
    show "0 \<le> DV" by simp
    show "?I 0 dh" by simp
    fix j x
    assume I: "?I j x" and j: "j < DV"
    show "case ?body j x of None \<Rightarrow> \<not> ?ok j | Some y \<Rightarrow> ?ok j \<and> ?I (Suc j) y"
    proof (cases "?ok j")
      case False
      then show ?thesis using I sep j by (auto simp: rd_def wr_def)
    next
      case True
      have xj: "x ! (ho + j) = dh ! (ho + j)" using I j by simp
      have b: "?body j x = Some (x[ho + j := ?r j, h1o + j := ?r j])"
        using True I sep j by (simp add: rd_def wr_def xj)
      have "?I (Suc j) (x[ho + j := ?r j, h1o + j := ?r j])"
        using I sep j True by (auto simp: nth_list_update less_Suc_eq)
      then show ?thesis unfolding b using True by simp
    qed
  qed
  moreover have "(\<forall>j. 0 \<le> j \<and> j < DV \<longrightarrow> ?ok j) = (h1o + DV \<le> length dh \<and> so + L < length s)"
    using all_upto_less' [of 0 DV h1o "length dh"] DV_pos by auto
  ultimately show ?thesis
    unfolding update_div_hashes_def by (auto split: option.splits)
qed

text \<open>The roll of the diversified hashes.\<close>

lemma div_ok_all:
  "(\<forall>j. 1 \<le> j \<and> j < n \<longrightarrow> (j + 1) * DV + DV \<le> n0 \<and> j - 1 + L < length s)
     = (n \<le> 1 \<or> (n + 1) * DV \<le> n0 \<and> n + L \<le> length s + 1)"
proof (cases "n \<le> 1")
  case True
  then show ?thesis by auto
next
  case False
  then have n: "1 \<le> n - 1" "n - 1 < n" by simp_all
  show ?thesis
  proof
    assume "\<forall>j. 1 \<le> j \<and> j < n \<longrightarrow> (j + 1) * DV + DV \<le> n0 \<and> j - 1 + L < length s"
    then have "(n - 1 + 1) * DV + DV \<le> n0 \<and> n - 1 - 1 + L < length s" using n by blast
    then show "n \<le> 1 \<or> (n + 1) * DV \<le> n0 \<and> n + L \<le> length s + 1"
      using False by (simp add: DV_def L_def)
  next
    assume "n \<le> 1 \<or> (n + 1) * DV \<le> n0 \<and> n + L \<le> length s + 1"
    then have a: "(n + 1) * DV \<le> n0" "n + L \<le> length s + 1" using False by simp_all
    show "\<forall>j. 1 \<le> j \<and> j < n \<longrightarrow> (j + 1) * DV + DV \<le> n0 \<and> j - 1 + L < length s"
    proof (intro allI impI)
      fix j assume "1 \<le> j \<and> j < n"
      then show "(j + 1) * DV + DV \<le> n0 \<and> j - 1 + L < length s"
        using a by (simp add: DV_def L_def)
    qed
  qed
qed

lemma div_roll_loop:
  assumes len: "length dh = n0"
    and first: "\<forall>i<DV. dh ! i = div_horner i (shingle s 0)
                     \<and> dh ! (DV + i) = div_horner i (shingle s 0)"
  shows "case for_upto 1 n (\<lambda>j. update_div_hashes (j * DV) ((j + 1) * DV) s (j - 1)) dh of
           None \<Rightarrow> \<not> (n \<le> 1 \<or> (n + 1) * DV \<le> n0 \<and> n + L \<le> length s + 1)
         | Some dh' \<Rightarrow> (n \<le> 1 \<or> (n + 1) * DV \<le> n0 \<and> n + L \<le> length s + 1)
               \<and> length dh' = n0
               \<and> (\<forall>k<max n 1. \<forall>i<DV. dh' ! (k * DV + i) = div_horner i (shingle s k))
               \<and> (\<forall>i<DV. dh' ! (max n 1 * DV + i) = div_horner i (shingle s (max n 1 - 1)))"
proof (cases "n \<le> 1")
  case True
  then have "for_upto 1 n (\<lambda>j. update_div_hashes (j * DV) ((j + 1) * DV) s (j - 1)) dh = Some dh"
    by (simp add: for_upto_empty)
  moreover have "max n 1 = 1" using True by simp
  ultimately show ?thesis using True len first by (simp add: add.commute)
next
  case False
  then have n1: "1 \<le> n" and mx: "max n 1 = n" by simp_all
  let ?v = "\<lambda>i k. div_horner i (shingle s k)"
  let ?body = "\<lambda>j. update_div_hashes (j * DV) ((j + 1) * DV) s (j - 1)"
  let ?I = "\<lambda>j x. length x = n0
               \<and> (\<forall>k<j. \<forall>i<DV. x ! (k * DV + i) = ?v i k)
               \<and> (\<forall>i<DV. x ! (j * DV + i) = ?v i (j - 1))"
  let ?ok = "\<lambda>j. (j + 1) * DV + DV \<le> n0 \<and> j - 1 + L < length s"
  have "case for_upto 1 n ?body dh of
           None \<Rightarrow> \<exists>j. 1 \<le> j \<and> j < n \<and> \<not> ?ok j
         | Some st' \<Rightarrow> (\<forall>j. 1 \<le> j \<and> j < n \<longrightarrow> ?ok j) \<and> ?I n st'"
  proof (rule for_upto_rule [where I = ?I and ok = ?ok])
    show "1 \<le> n" by (rule n1)
    show "?I 1 dh" using len first by (simp add: add.commute)
    fix j x
    assume j1: "1 \<le> j" and I: "?I j x"
    have sep: "j * DV + DV \<le> (j + 1) * DV" by simp
    note R = update_div_hashes_rule [OF sep, where s = s and so = "j - 1" and dh = x]
    show "case ?body j x of None \<Rightarrow> \<not> ?ok j | Some y \<Rightarrow> ?ok j \<and> ?I (Suc j) y"
    proof (cases "?body j x")
      case None
      then show ?thesis using R I by simp
    next
      case (Some y)
      then have ok: "?ok j" and leny: "length y = n0"
        and new: "\<forall>i<DV. y ! (j * DV + i) = div_roll i (x ! (j * DV + i)) (s ! (j - 1)) (s ! (j - 1 + L))
                         \<and> y ! ((j + 1) * DV + i) = div_roll i (x ! (j * DV + i)) (s ! (j - 1)) (s ! (j - 1 + L))"
        and old: "\<forall>k<j * DV. y ! k = x ! k"
        using R I by simp_all
      have roll: "div_roll i (x ! (j * DV + i)) (s ! (j - 1)) (s ! (j - 1 + L)) = ?v i j" if "i < DV" for i
      proof -
        have "x ! (j * DV + i) = ?v i (j - 1)" using I that by simp
        moreover have "Suc (j - 1) = j" using j1 by simp
        ultimately show ?thesis
          using div_roll_shingle [of "j - 1" s i] ok that by simp
      qed
      have lt: "k * DV + i < j * DV" if "k < j" "i < DV" for k i
      proof -
        have "Suc k * DV \<le> j * DV" using that(1) by (intro mult_le_mono1) simp
        then show ?thesis using that(2) by simp
      qed
      have 1: "\<forall>k<Suc j. \<forall>i<DV. y ! (k * DV + i) = ?v i k"
      proof (intro allI impI)
        fix k i assume k: "k < Suc j" and i: "i < DV"
        show "y ! (k * DV + i) = ?v i k"
        proof (cases "k = j")
          case True
          then show ?thesis using new roll [OF i] i by simp
        next
          case False
          then have "k < j" using k by simp
          then show ?thesis using old lt [OF _ i] I i by simp
        qed
      qed
      have 2: "\<forall>i<DV. y ! (Suc j * DV + i) = ?v i (Suc j - 1)"
        using new roll by simp
      show ?thesis using Some ok leny 1 2 by simp
    qed
  qed
  moreover have "(\<exists>j. 1 \<le> j \<and> j < n \<and> \<not> ?ok j)
      = (\<not> (n \<le> 1 \<or> (n + 1) * DV \<le> n0 \<and> n + L \<le> length s + 1))"
    using div_ok_all [of n n0 s] by blast
  ultimately show ?thesis
    unfolding div_ok_all mx by (simp split: option.splits)
qed

text \<open>\<^verbatim>\<open>hash_batch\<close> as a whole: when it stays in bounds, and what it leaves in the arrays.\<close>

lemma hash_batch_rule:
  "case hash_batch s n com_hash div_hash of
     None \<Rightarrow> \<not> ((max n 1 + 1) * DV \<le> length div_hash \<and> n < length com_hash
                 \<and> L \<le> length s \<and> (n = 0 \<or> n + L \<le> length s))
   | Some (com', div') \<Rightarrow>
       (max n 1 + 1) * DV \<le> length div_hash \<and> n < length com_hash
       \<and> L \<le> length s \<and> (n = 0 \<or> n + L \<le> length s)
       \<and> length com' = length com_hash \<and> length div' = length div_hash
       \<and> (\<forall>j\<le>n. com' ! j = com_horner (shingle s j))
       \<and> (\<forall>k<max n 1. \<forall>i<DV. div' ! (k * DV + i) = div_horner i (shingle s k))
       \<and> (\<forall>i<DV. div' ! (max n 1 * DV + i) = div_horner i (shingle s (max n 1 - 1)))"
proof -
  let ?fits = "(max n 1 + 1) * DV \<le> length div_hash \<and> n < length com_hash
                 \<and> L \<le> length s \<and> (n = 0 \<or> n + L \<le> length s)"
  let ?roll = "\<lambda>j. update_div_hashes (j * DV) ((j + 1) * DV) s (j - 1)"
  let ?cfirst = "\<lambda>j ch. do { h \<leftarrow> rd ch 0; b \<leftarrow> rd s j; wr ch 0 (com_step h b) }"
  let ?croll = "\<lambda>j ch. do { h \<leftarrow> rd ch j; s0 \<leftarrow> rd s j; sL \<leftarrow> rd s (j + L);
                 wr ch (j + 1) (com_roll h s0 sL) }"
  note A = div_first_loop [of div_hash "length div_hash" s, OF refl]
  show ?thesis
  proof (cases "for_upto 0 DV (div_first s) div_hash")
    case None
    then have "\<not> ?fits" using A by (auto simp: DV_def max_def)
    then show ?thesis using None by (simp add: hash_batch_def)
  next
    case d1: (Some d1)
    then have a: "2 * DV \<le> length div_hash" "L \<le> length s" "length d1 = length div_hash"
      and a1: "\<forall>i<DV. d1 ! i = div_horner i (shingle s 0) \<and> d1 ! (DV + i) = div_horner i (shingle s 0)"
      using A by simp_all
    note B = div_roll_loop [of d1 "length div_hash" s n, OF a(3) a1]
    show ?thesis
    proof (cases "for_upto 1 n ?roll d1")
      case None
      then have "\<not> ?fits" using B by (auto simp: max_def)
      then show ?thesis using d1 None by (simp add: hash_batch_def)
    next
      case d2: (Some d2)
      then have b: "n \<le> 1 \<or> (n + 1) * DV \<le> length div_hash \<and> n + L \<le> length s + 1"
        "length d2 = length div_hash"
        and b1: "\<forall>k<max n 1. \<forall>i<DV. d2 ! (k * DV + i) = div_horner i (shingle s k)"
        and b2: "\<forall>i<DV. d2 ! (max n 1 * DV + i) = div_horner i (shingle s (max n 1 - 1))"
        using B by simp_all
      have dfit: "(max n 1 + 1) * DV \<le> length div_hash"
        using a(1) b(1) by (auto simp: max_def)
      show ?thesis
      proof (cases "0 < length com_hash")
        case False
        then show ?thesis using d1 d2 by (simp add: hash_batch_def wr_def)
      next
        case c0: True
        then have w: "wr com_hash 0 0 = Some (com_hash[0 := 0])" by (simp add: wr_def)
        note C = com_first_loop [OF c0, of s]
        have c1: "for_upto 0 L ?cfirst (com_hash[0 := 0]) = Some (com_hash[0 := com_horner (shingle s 0)])"
          using C a(2) by (auto split: option.splits)
        note D = com_roll_loop [of "com_hash[0 := com_horner (shingle s 0)]" "length com_hash" s n]
        have D': "case for_upto 0 n ?croll (com_hash[0 := com_horner (shingle s 0)]) of
           None \<Rightarrow> \<not> (n = 0 \<or> n < length com_hash \<and> n + L \<le> length s)
         | Some ch' \<Rightarrow> (n = 0 \<or> n < length com_hash \<and> n + L \<le> length s) \<and> length ch' = length com_hash
               \<and> (\<forall>k\<le>n. ch' ! k = com_horner (shingle s k))"
          using D c0 by (auto split: option.splits)
        show ?thesis
        proof (cases "for_upto 0 n ?croll (com_hash[0 := com_horner (shingle s 0)])")
          case None
          then have "\<not> ?fits" using D' by auto
          then show ?thesis using d1 d2 w c1 None by (simp add: hash_batch_def)
        next
          case (Some c2)
          then have "?fits" and "length c2 = length com_hash"
            and "\<forall>k\<le>n. c2 ! k = com_horner (shingle s k)"
            using D' dfit c0 a(2) by auto
          then show ?thesis using d1 d2 w c1 Some b b1 b2 by (simp add: hash_batch_def)
        qed
      qed
    qed
  qed
qed

section \<open>The map, scatter's consume and gather's check\<close>

subsection \<open>Bits of the map\<close>

lemma bit_and_exp:
  fixes b :: "8 word"
  shows "bit (b AND 2 ^ i) k = (bit b k \<and> k = i)"
  by (auto simp: bit_simps dest: bit_imp_possible_bit)

lemma bit_cleared:
  fixes b :: "8 word"
  shows "bit (b AND NOT (2 ^ i)) k = (bit b k \<and> k \<noteq> i)"
  by (auto simp: bit_simps dest: bit_imp_possible_bit)

lemma and_exp_eq_0:
  fixes b :: "8 word"
  shows "(b AND 2 ^ i = 0) = (\<not> bit b i)"
proof
  assume "b AND 2 ^ i = 0"
  then have "\<not> bit (b AND 2 ^ i) i" by simp
  then show "\<not> bit b i" by (simp add: bit_and_exp)
next
  assume "\<not> bit b i"
  then have "\<forall>k. \<not> bit (b AND 2 ^ i) k" by (auto simp: bit_and_exp)
  then show "b AND 2 ^ i = 0" by (simp add: bit_eq_iff)
qed

lemma clear_bit_at_Some:
  assumes "clear_bit_at m a i = Some m'"
  shows "a < map_size" and "m' = m(a := m a AND NOT (push_bit i 1))"
  using assms by (auto simp: clear_bit_at_def split: if_splits)

text \<open>
  What one inner loop of scatter's consume does for shingle \<open>j\<close>: \<open>set j i\<close> is the address
  of co-filter \<open>i\<close>.
\<close>

lemma scatter_inner_rule:
  fixes m :: hash_map
  shows "case for_upto 0 DV (\<lambda>i m. do {
              c \<leftarrow> rd com_ctr j;
              d \<leftarrow> rd div_ctr (j * DV + i);
              clear_bit_at m (c + ucast d) i }) m of
           None \<Rightarrow> \<exists>i<DV. \<not> (j < length com_ctr \<and> j * DV + i < length div_ctr
                             \<and> com_ctr ! j + ucast (div_ctr ! (j * DV + i)) < map_size)
         | Some m' \<Rightarrow> (\<forall>i<DV. j < length com_ctr \<and> j * DV + i < length div_ctr
                             \<and> com_ctr ! j + ucast (div_ctr ! (j * DV + i)) < map_size)
               \<and> (\<forall>a k. bit (m' a) k =
                     (bit (m a) k \<and> \<not> (k < DV \<and> a = com_ctr ! j + ucast (div_ctr ! (j * DV + k)))))"
proof -
  let ?addr = "\<lambda>i. com_ctr ! j + ucast (div_ctr ! (j * DV + i))"
  let ?body = "\<lambda>i m. do {
              c \<leftarrow> rd com_ctr j;
              d \<leftarrow> rd div_ctr (j * DV + i);
              clear_bit_at m (c + ucast d) i }"
  let ?ok = "\<lambda>i. j < length com_ctr \<and> j * DV + i < length div_ctr \<and> ?addr i < map_size"
  let ?I = "\<lambda>n (x :: hash_map). \<forall>a k. bit (x a) k = (bit (m a) k \<and> \<not> (k < n \<and> a = ?addr k))"
  have "case for_upto 0 DV ?body m of
           None \<Rightarrow> \<exists>i. 0 \<le> i \<and> i < DV \<and> \<not> ?ok i
         | Some st' \<Rightarrow> (\<forall>i. 0 \<le> i \<and> i < DV \<longrightarrow> ?ok i) \<and> ?I DV st'"
  proof (rule for_upto_rule [where I = ?I and ok = ?ok])
    show "0 \<le> DV" by simp
    show "?I 0 m" by simp
    fix i x
    assume I: "?I i x"
    show "case ?body i x of None \<Rightarrow> \<not> ?ok i | Some y \<Rightarrow> ?ok i \<and> ?I (Suc i) y"
    proof (cases "?ok i")
      case False
      then show ?thesis by (auto simp: rd_def clear_bit_at_def)
    next
      case True
      then have b: "?body i x = Some (x(?addr i := x (?addr i) AND NOT (push_bit i 1)))"
        by (simp add: rd_def clear_bit_at_def)
      have "?I (Suc i) (x(?addr i := x (?addr i) AND NOT (push_bit i 1)))"
        using I by (auto simp: less_Suc_eq bit_cleared)
      then show ?thesis unfolding b using True by simp
    qed
  qed
  then show ?thesis by (auto split: option.splits)
qed

text \<open>Scatter's consume over one batch.\<close>

lemma scatter_consume_rule:
  fixes m :: hash_map
  shows "case scatter_consume m j0 n com_ctr div_ctr of
           None \<Rightarrow> \<exists>j i. j0 \<le> j \<and> j < n \<and> i < DV
                   \<and> \<not> (j < length com_ctr \<and> j * DV + i < length div_ctr
                         \<and> com_ctr ! j + ucast (div_ctr ! (j * DV + i)) < map_size)
         | Some m' \<Rightarrow>
             (\<forall>j i. j0 \<le> j \<and> j < n \<and> i < DV \<longrightarrow>
                  j < length com_ctr \<and> j * DV + i < length div_ctr
                  \<and> com_ctr ! j + ucast (div_ctr ! (j * DV + i)) < map_size)
             \<and> (\<forall>a k. bit (m' a) k =
                   (bit (m a) k \<and> \<not> (k < DV \<and> (\<exists>j. j0 \<le> j \<and> j < n
                        \<and> a = com_ctr ! j + ucast (div_ctr ! (j * DV + k))))))"
proof (cases "j0 \<le> n")
  case False
  then show ?thesis by (auto simp: scatter_consume_def for_upto_empty)
next
  case True
  let ?addr = "\<lambda>j i. com_ctr ! j + ucast (div_ctr ! (j * DV + i))"
  let ?inner = "\<lambda>j. for_upto 0 DV (\<lambda>i m. do {
              c \<leftarrow> rd com_ctr j;
              d \<leftarrow> rd div_ctr (j * DV + i);
              clear_bit_at m (c + ucast d) i })"
  let ?ok = "\<lambda>j. \<forall>i<DV. j < length com_ctr \<and> j * DV + i < length div_ctr \<and> ?addr j i < map_size"
  let ?I = "\<lambda>n (x :: hash_map). \<forall>a k. bit (x a) k =
               (bit (m a) k \<and> \<not> (k < DV \<and> (\<exists>j. j0 \<le> j \<and> j < n \<and> a = ?addr j k)))"
  have "case for_upto j0 n ?inner m of
           None \<Rightarrow> \<exists>j. j0 \<le> j \<and> j < n \<and> \<not> ?ok j
         | Some st' \<Rightarrow> (\<forall>j. j0 \<le> j \<and> j < n \<longrightarrow> ?ok j) \<and> ?I n st'"
  proof (rule for_upto_rule [where I = ?I and ok = ?ok])
    show "j0 \<le> n" by (rule True)
    show "?I j0 m" by simp
    fix j x
    assume I: "?I j x" and j: "j0 \<le> j"
    note R = scatter_inner_rule [where com_ctr = com_ctr and j = j and div_ctr = div_ctr and m = x]
    show "case ?inner j x of None \<Rightarrow> \<not> ?ok j | Some y \<Rightarrow> ?ok j \<and> ?I (Suc j) y"
    proof (cases "?inner j x")
      case None
      then show ?thesis using R by auto
    next
      case (Some y)
      then have ok: "?ok j" and y: "\<forall>a k. bit (y a) k = (bit (x a) k \<and> \<not> (k < DV \<and> a = ?addr j k))"
        using R by simp_all
      have "?I (Suc j) y"
      proof (intro allI)
        fix a k
        have "(\<exists>j'. j0 \<le> j' \<and> j' < Suc j \<and> a = ?addr j' k)
            = ((\<exists>j'. j0 \<le> j' \<and> j' < j \<and> a = ?addr j' k) \<or> a = ?addr j k)"
          using j by (auto simp: less_Suc_eq)
        then show "bit (y a) k = (bit (m a) k \<and> \<not> (k < DV \<and> (\<exists>j'. j0 \<le> j' \<and> j' < Suc j \<and> a = ?addr j' k)))"
          using y I by auto
      qed
      then show ?thesis using Some ok by simp
    qed
  qed
  then show ?thesis
    unfolding scatter_consume_def by (auto split: option.splits)
qed

text \<open>\<^verbatim>\<open>check_hash\<close>: the result is 0 exactly when all \<open>DV\<close> bits are cleared.\<close>

lemma check_hash_rule:
  fixes m :: hash_map
  shows "case check_hash m hash of
           None \<Rightarrow> \<exists>i<DV. \<not> (i < length hash \<and> hash ! i < map_size)
         | Some w \<Rightarrow> (\<forall>i<DV. i < length hash \<and> hash ! i < map_size)
               \<and> (\<forall>k. bit w k = (k < DV \<and> bit (m (hash ! k)) k))"
proof -
  let ?body = "\<lambda>i w. do {
        a \<leftarrow> rd hash i;
        b \<leftarrow> map_rd m a;
        Some (w OR (b AND push_bit i 1)) }"
  let ?ok = "\<lambda>i. i < length hash \<and> hash ! i < map_size"
  let ?I = "\<lambda>n (w :: 8 word). \<forall>k. bit w k = (k < n \<and> bit (m (hash ! k)) k)"
  have "case for_upto 0 DV ?body 0 of
           None \<Rightarrow> \<exists>i. 0 \<le> i \<and> i < DV \<and> \<not> ?ok i
         | Some st' \<Rightarrow> (\<forall>i. 0 \<le> i \<and> i < DV \<longrightarrow> ?ok i) \<and> ?I DV st'"
  proof (rule for_upto_rule [where I = ?I and ok = ?ok])
    show "0 \<le> DV" by simp
    show "?I 0 0" by simp
    fix i w
    assume I: "?I i w"
    show "case ?body i w of None \<Rightarrow> \<not> ?ok i | Some y \<Rightarrow> ?ok i \<and> ?I (Suc i) y"
    proof (cases "?ok i")
      case False
      then show ?thesis by (auto simp: rd_def map_rd_def)
    next
      case True
      then have b: "?body i w = Some (w OR (m (hash ! i) AND 2 ^ i))"
        by (simp add: rd_def map_rd_def)
      have "?I (Suc i) (w OR (m (hash ! i) AND 2 ^ i))"
        using I by (auto simp: bit_or_iff bit_and_exp less_Suc_eq)
      then show ?thesis unfolding b using True by simp
    qed
  qed
  then show ?thesis unfolding check_hash_def by (auto split: option.splits)
qed

lemma check_hash_zero:
  assumes "check_hash m hash = Some w"
  shows "(w = 0) = (\<forall>i<DV. \<not> bit (m (hash ! i)) i)"
proof -
  have "\<forall>k. bit w k = (k < DV \<and> bit (m (hash ! k)) k)"
    using check_hash_rule [where m = m and hash = hash] assms by simp
  then show ?thesis by (auto simp: bit_eq_iff DV_def)
qed

text \<open>The aggregated addresses of one shingle.\<close>

lemma aggregate_rule:
  "case aggregate com_ctr co div_ctr d j of
     None \<Rightarrow> \<not> (co + j < length com_ctr \<and> d + (j * DV + DV) \<le> length div_ctr)
   | Some hash \<Rightarrow> co + j < length com_ctr \<and> d + (j * DV + DV) \<le> length div_ctr
         \<and> length hash = DV
         \<and> (\<forall>i<DV. hash ! i = com_ctr ! (co + j) + ucast (div_ctr ! (d + (j * DV + i))))"
proof -
  let ?body = "\<lambda>i hash. do {
        c \<leftarrow> rd com_ctr (co + j);
        x \<leftarrow> rd div_ctr (d + (j * DV + i));
        wr hash i (c + ucast x) }"
  let ?ok = "\<lambda>i. co + j < length com_ctr \<and> d + j * DV + i < length div_ctr"
  let ?I = "\<lambda>n hash. length hash = DV
       \<and> (\<forall>i<n. hash ! i = com_ctr ! (co + j) + ucast (div_ctr ! (d + (j * DV + i))))"
  have "case for_upto 0 DV ?body (replicate DV 0) of
           None \<Rightarrow> \<exists>i. 0 \<le> i \<and> i < DV \<and> \<not> ?ok i
         | Some st' \<Rightarrow> (\<forall>i. 0 \<le> i \<and> i < DV \<longrightarrow> ?ok i) \<and> ?I DV st'"
  proof (rule for_upto_rule [where I = ?I and ok = ?ok])
    show "0 \<le> DV" by simp
    show "?I 0 (replicate DV 0)" by simp
    fix i x
    assume I: "?I i x" and i: "i < DV"
    show "case ?body i x of None \<Rightarrow> \<not> ?ok i | Some y \<Rightarrow> ?ok i \<and> ?I (Suc i) y"
      using I i by (auto simp: rd_def wr_def nth_list_update less_Suc_eq add.assoc)
  qed
  moreover have "(\<forall>i. 0 \<le> i \<and> i < DV \<longrightarrow> ?ok i)
      = (co + j < length com_ctr \<and> d + (j * DV + DV) \<le> length div_ctr)"
    using all_upto_less' [of 0 DV "d + j * DV" "length div_ctr"] DV_pos by (auto simp: add.assoc)
  ultimately show ?thesis unfolding aggregate_def by (auto split: option.splits)
qed

text \<open>\<^verbatim>\<open>check_batch\<close> and the run detector.\<close>

lemma run_update_spec: "run_update w st = spec_step (w = 0) st"
  by (auto simp: run_update_def spec_step_def Let_def max_def not_less)

lemma spec_run_snoc: "spec_run (ps @ [p]) st = spec_step p (spec_run ps st)"
  by (simp add: spec_run_def)

lemma spec_run_append: "spec_run (ps @ qs) st = spec_run qs (spec_run ps st)"
  by (simp add: spec_run_def)

lemma batch_passes_Suc:
  "batch_passes m (Suc j) com_ctr co div_ctr d
     = batch_passes m j com_ctr co div_ctr d @ [shingle_w m com_ctr co div_ctr d j = Some 0]"
  by (simp add: batch_passes_def)

lemma check_batch_rule:
  "case check_batch m n com_ctr co div_ctr d st of
     None \<Rightarrow> \<exists>j<n. shingle_w m com_ctr co div_ctr d j = None
   | Some st' \<Rightarrow> (\<forall>j<n. shingle_w m com_ctr co div_ctr d j \<noteq> None)
         \<and> st' = spec_run (batch_passes m n com_ctr co div_ctr d) st"
proof -
  let ?body = "\<lambda>j st. do {
        hash \<leftarrow> aggregate com_ctr co div_ctr d j;
        w \<leftarrow> check_hash m hash;
        Some (run_update w st) }"
  let ?ok = "\<lambda>j. shingle_w m com_ctr co div_ctr d j \<noteq> None"
  let ?I = "\<lambda>j x. x = spec_run (batch_passes m j com_ctr co div_ctr d) st"
  have body: "?body j x = (case shingle_w m com_ctr co div_ctr d j of
                 None \<Rightarrow> None | Some w \<Rightarrow> Some (spec_step (w = 0) x))" for j x
    by (cases "aggregate com_ctr co div_ctr d j")
       (auto simp: shingle_w_def run_update_spec split: option.splits)
  have "case for_upto 0 n ?body st of
           None \<Rightarrow> \<exists>j. 0 \<le> j \<and> j < n \<and> \<not> ?ok j
         | Some st' \<Rightarrow> (\<forall>j. 0 \<le> j \<and> j < n \<longrightarrow> ?ok j) \<and> ?I n st'"
  proof (rule for_upto_rule [where I = ?I and ok = ?ok])
    show "0 \<le> n" by simp
    show "?I 0 st" by (simp add: batch_passes_def spec_run_def)
    fix j x
    assume I: "?I j x"
    show "case ?body j x of None \<Rightarrow> \<not> ?ok j | Some y \<Rightarrow> ?ok j \<and> ?I (Suc j) y"
      unfolding body using I
      by (auto simp: batch_passes_Suc spec_run_snoc split: option.splits)
  qed
  then show ?thesis unfolding check_batch_def by (auto split: option.splits)
qed

lemma spec_step_fields:
  "count (spec_step p st) = (if p then count st + 1 else 0)"
  "max_count (spec_step p st) = max (max_count st) (if p then count st + 1 else 0)"
  "residue (spec_step p st)
     = (if (if p then count st + 1 else 0) > of_nat (LP - L) then residue st + 1 else residue st)"
  by (simp_all add: spec_step_def Let_def)

lemma Max_insert_max:
  fixes a b :: "'a :: linorder"
  assumes "finite S"
  shows "Max (insert (max a b) S) = Max (insert a (insert b S))"
proof (cases "S = {}")
  case True
  then show ?thesis by (simp add: max.commute)
next
  case False
  then show ?thesis using assms by (simp add: max.assoc)
qed

lemma spec_run_Cons: "spec_run (p # ps) st = spec_run ps (spec_step p st)"
  by (simp add: spec_run_def)

lemma max_count_spec_run:
  "max_count (spec_run ps st) = Max (set (max_count st # count_trace ps (count st)))"
proof (induction ps arbitrary: st)
  case Nil
  then show ?case by (simp add: spec_run_def)
next
  case (Cons p ps)
  let ?c = "if p then count st + 1 else 0"
  have "max_count (spec_run (p # ps) st)
      = Max (insert (max (max_count st) ?c) (set (count_trace ps ?c)))"
    unfolding spec_run_Cons Cons.IH by (simp add: spec_step_fields)
  also have "\<dots> = Max (insert (max_count st) (insert ?c (set (count_trace ps ?c))))"
    by (rule Max_insert_max) simp
  finally show ?case by simp
qed

lemma count_spec_run:
  "count (spec_run ps st) = last (count st # count_trace ps (count st))"
proof (induction ps arbitrary: st)
  case Nil
  then show ?case by (simp add: spec_run_def)
next
  case (Cons p ps)
  show ?case
    unfolding spec_run_Cons Cons.IH by (simp add: spec_step_fields)
qed

subsection \<open>Ranges of the hashes\<close>

lemma com_horner_lt: "uint (com_horner bs) < 1000000007"
  unfolding uint_com_horner by simp

lemma div_horner_lt: "i < DV \<Longrightarrow> uint (div_horner i bs) < 67"
  unfolding uint_div_horner by simp

lemma uint_map_size: "uint map_size = 1000000074"
  by (simp add: map_size_def M_COM_def M_DIV_def)

lemma address_in_map:
  fixes c :: "64 word" and d :: "8 word"
  assumes "uint c < 1000000007" "uint d < 67"
  shows "uint (c + ucast d) = uint c + uint d" and "c + ucast d < map_size"
proof -
  have "uint c + uint d < 18446744073709551616" using assms by simp
  then show 1: "uint (c + ucast d) = uint c + uint d"
    using u64_add [of c "ucast d"] by simp
  show "c + ucast d < map_size"
    unfolding word_less_def 1 uint_map_size using assms by simp
qed

text \<open>What a call of \<open>hash_batch\<close> that stays in bounds leaves behind.\<close>

lemma hash_batch_SomeD:
  assumes "hash_batch s n com_hash div_hash = Some (com', div')"
  shows "(max n 1 + 1) * DV \<le> length div_hash" and "n < length com_hash"
    and "L \<le> length s" and "n = 0 \<or> n + L \<le> length s"
    and "length com' = length com_hash" and "length div' = length div_hash"
    and "\<And>j. j \<le> n \<Longrightarrow> com' ! j = com_horner (shingle s j)"
    and "\<And>k i. k < max n 1 \<Longrightarrow> i < DV \<Longrightarrow> div' ! (k * DV + i) = div_horner i (shingle s k)"
    and "\<And>i. i < DV \<Longrightarrow> div' ! (max n 1 * DV + i) = div_horner i (shingle s (max n 1 - 1))"
proof -
  have R: "(max n 1 + 1) * DV \<le> length div_hash \<and> n < length com_hash
       \<and> L \<le> length s \<and> (n = 0 \<or> n + L \<le> length s)
       \<and> length com' = length com_hash \<and> length div' = length div_hash
       \<and> (\<forall>j\<le>n. com' ! j = com_horner (shingle s j))
       \<and> (\<forall>k<max n 1. \<forall>i<DV. div' ! (k * DV + i) = div_horner i (shingle s k))
       \<and> (\<forall>i<DV. div' ! (max n 1 * DV + i) = div_horner i (shingle s (max n 1 - 1)))"
    using hash_batch_rule [where s = s and n = n and com_hash = com_hash and div_hash = div_hash]
    unfolding assms option.case prod.case .
  show "(max n 1 + 1) * DV \<le> length div_hash" using R by blast
  show "n < length com_hash" using R by blast
  show "L \<le> length s" using R by blast
  show "n = 0 \<or> n + L \<le> length s" using R by blast
  show "length com' = length com_hash" using R by blast
  show "length div' = length div_hash" using R by blast
  show "\<And>j. j \<le> n \<Longrightarrow> com' ! j = com_horner (shingle s j)" using R by (elim conjE) blast
  show "\<And>k i. k < max n 1 \<Longrightarrow> i < DV \<Longrightarrow> div' ! (k * DV + i) = div_horner i (shingle s k)"
    using R by (elim conjE) blast
  show "\<And>i. i < DV \<Longrightarrow> div' ! (max n 1 * DV + i) = div_horner i (shingle s (max n 1 - 1))"
    using R by (elim conjE) blast
qed

text \<open>Every slot of \<open>div_hash\<close> that \<open>hash_batch\<close> writes holds a value below \<open>M_DIV\<close>.\<close>

lemma hash_batch_div_range:
  assumes "hash_batch s n com_hash div_hash = Some (com', div')" and "k < (max n 1 + 1) * DV"
  shows "uint (div' ! k) < 67"
proof -
  note R = hash_batch_SomeD [OF assms(1)]
  let ?q = "k div DV" and ?i = "k mod DV"
  have i: "?i < DV" using DV_pos by simp
  have k: "?q * DV + ?i = k" by simp
  have q: "?q < max n 1 + 1" using assms(2) DV_pos by (simp add: less_mult_imp_div_less)
  show ?thesis
  proof (cases "?q < max n 1")
    case True
    have "div' ! (?q * DV + ?i) = div_horner ?i (shingle s ?q)" by (rule R(8) [OF True i])
    then have "div' ! k = div_horner ?i (shingle s ?q)" unfolding k .
    then show ?thesis using div_horner_lt [OF i] by simp
  next
    case False
    then have e: "?q = max n 1" using q by simp
    have "div' ! (max n 1 * DV + ?i) = div_horner ?i (shingle s (max n 1 - 1))" by (rule R(9) [OF i])
    then have "div' ! k = div_horner ?i (shingle s (max n 1 - 1))" unfolding e [symmetric] k .
    then show ?thesis using div_horner_lt [OF i] by simp
  qed
qed

lemma hash_batch_com_range:
  assumes "hash_batch s n com_hash div_hash = Some (com', div')" and "j \<le> n"
  shows "uint (com' ! j) < 1000000007"
  using hash_batch_SomeD(7) [OF assms] com_horner_lt by simp

lemma hash_batch_lengths:
  assumes "hash_batch s n com_hash div_hash = Some (com', div')"
  shows "n < length com'" and "(max n 1 + 1) * DV \<le> length div'"
  using hash_batch_SomeD [OF assms] by simp_all


lemma shingle_w_in_bounds:
  assumes "hash_batch s n com_hash div_hash = Some (com', div')"
    and "co + j < n" and "d + (j * DV + DV) \<le> n * DV"
  shows "shingle_w m com' co div' d j \<noteq> None"
proof -
  note A = aggregate_rule [where com_ctr = com' and co = co and div_ctr = div' and d = d and j = j]
  have fit: "co + j < length com'" "d + (j * DV + DV) \<le> length div'"
    using hash_batch_lengths [OF assms(1)] assms(2,3) by (auto simp: max_def DV_def split: if_splits)
  then obtain hash where h: "aggregate com' co div' d j = Some hash"
    and len: "length hash = DV"
    and val: "\<forall>i<DV. hash ! i = com' ! (co + j) + ucast (div' ! (d + (j * DV + i)))"
    using A by (auto split: option.splits)
  have "hash ! i < map_size" if "i < DV" for i
  proof -
    have "d + (j * DV + i) < (max n 1 + 1) * DV"
      using assms(3) that by (auto simp: max_def DV_def split: if_splits)
    from address_in_map(2) [OF hash_batch_com_range [OF assms(1)] hash_batch_div_range [OF assms(1) this], of "co + j"]
    show ?thesis using val that assms(2) by simp
  qed
  then have "check_hash m hash \<noteq> None"
    using check_hash_rule [where m = m and hash = hash] len by (auto split: option.splits)
  then show ?thesis using h by (simp add: shingle_w_def)
qed

lemma check_batch_in_bounds:
  assumes "hash_batch s n com_hash div_hash = Some (com', div')"
    and "co + n' \<le> n" and "d + n' * DV \<le> n * DV"
  shows "check_batch m n' com' co div' d st \<noteq> None"
proof
  assume "check_batch m n' com' co div' d st = None"
  then obtain j where j: "j < n'" and bad: "shingle_w m com' co div' d j = None"
    using check_batch_rule [where m = m and n = n' and com_ctr = com' and co = co and div_ctr = div'
        and d = d and st = st] by auto
  have "Suc j * DV \<le> n' * DV" using j by (intro mult_le_mono1) simp
  then have "d + (j * DV + DV) \<le> n * DV" using assms(3) by simp
  moreover have "co + j < n" using j assms(2) by simp
  ultimately show False using shingle_w_in_bounds [OF assms(1)] bad by blast
qed

subsection \<open>Scatter marks, gather finds\<close>

lemma scatter_consume_Some:
  fixes m :: hash_map
  assumes "scatter_consume m j0 n com_ctr div_ctr = Some m'"
  shows "\<And>a k. bit (m' a) k \<Longrightarrow> bit (m a) k"
    and "\<And>j i. j0 \<le> j \<Longrightarrow> j < n \<Longrightarrow> i < DV \<Longrightarrow>
            \<not> bit (m' (com_ctr ! j + ucast (div_ctr ! (j * DV + i)))) i"
    and "\<And>j i. j0 \<le> j \<Longrightarrow> j < n \<Longrightarrow> i < DV \<Longrightarrow>
            j < length com_ctr \<and> j * DV + i < length div_ctr
            \<and> com_ctr ! j + ucast (div_ctr ! (j * DV + i)) < map_size"
proof -
  have R: "(\<forall>j i. j0 \<le> j \<and> j < n \<and> i < DV \<longrightarrow>
                  j < length com_ctr \<and> j * DV + i < length div_ctr
                  \<and> com_ctr ! j + ucast (div_ctr ! (j * DV + i)) < map_size)
             \<and> (\<forall>a k. bit (m' a) k =
                   (bit (m a) k \<and> \<not> (k < DV \<and> (\<exists>j. j0 \<le> j \<and> j < n
                        \<and> a = com_ctr ! j + ucast (div_ctr ! (j * DV + k))))))"
    using scatter_consume_rule [where m = m and ?j0.0 = j0 and n = n and com_ctr = com_ctr
        and div_ctr = div_ctr]
    unfolding assms option.case .
  show "\<And>a k. bit (m' a) k \<Longrightarrow> bit (m a) k" using R by blast
  show "\<And>j i. j0 \<le> j \<Longrightarrow> j < n \<Longrightarrow> i < DV \<Longrightarrow>
            \<not> bit (m' (com_ctr ! j + ucast (div_ctr ! (j * DV + i)))) i"
    using R by blast
  show "\<And>j i. j0 \<le> j \<Longrightarrow> j < n \<Longrightarrow> i < DV \<Longrightarrow>
            j < length com_ctr \<and> j * DV + i < length div_ctr
            \<and> com_ctr ! j + ucast (div_ctr ! (j * DV + i)) < map_size"
    using R by blast
qed

lemma scatter_worker3_mono:
  fixes m :: hash_map
  assumes "scatter_worker3 m j0 batches = Some m'" and "bit (m' a) k"
  shows "bit (m a) k"
  using assms
proof (induction batches arbitrary: m j0)
  case Nil
  then show ?case by simp
next
  case (Cons x batches)
  obtain bs com_ctr div_ctr where x: "x = (bs, com_ctr, div_ctr)" by (cases x)
  from Cons.prems(1) obtain m1 where
    1: "scatter_consume m j0 (unat bs) com_ctr div_ctr = Some m1"
    and 2: "scatter_worker3 m1 0 batches = Some m'"
    unfolding x by (auto simp: bind_eq_Some_conv)
  have "bit (m1 a) k" by (rule Cons.IH [OF 2 Cons.prems(2)])
  then show ?case by (rule scatter_consume_Some(1) [OF 1])
qed

lemma scatter_worker3_marks:
  fixes m :: hash_map
  assumes "scatter_worker3 m j0 batches = Some m'"
    and "b < length batches" and "batches ! b = (bs, com_ctr, div_ctr)"
    and "(if b = 0 then j0 else 0) \<le> j" and "j < unat bs" and "i < DV"
  shows "\<not> bit (m' (com_ctr ! j + ucast (div_ctr ! (j * DV + i)))) i"
  using assms(1-4)
proof (induction batches arbitrary: m j0 b)
  case Nil
  then show ?case by simp
next
  case (Cons x batches)
  obtain bs' com' div' where x: "x = (bs', com', div')" by (cases x)
  from Cons.prems(1) obtain m1 where
    1: "scatter_consume m j0 (unat bs') com' div' = Some m1"
    and 2: "scatter_worker3 m1 0 batches = Some m'"
    unfolding x by (auto simp: bind_eq_Some_conv)
  show ?case
  proof (cases b)
    case 0
    then have e: "bs' = bs" "com' = com_ctr" "div' = div_ctr" using Cons.prems(3) x by simp_all
    have "j0 \<le> j" using Cons.prems(4) 0 by simp
    then have "\<not> bit (m1 (com_ctr ! j + ucast (div_ctr ! (j * DV + i)))) i"
      using scatter_consume_Some(2) [OF 1 [unfolded e]] assms(5,6) by simp
    then show ?thesis using scatter_worker3_mono [OF 2] by blast
  next
    case (Suc b')
    then have "b' < length batches" "batches ! b' = (bs, com_ctr, div_ctr)"
      using Cons.prems(2,3) by simp_all
    then show ?thesis by (rule Cons.IH [OF 2]) simp
  qed
qed

lemma check_hash_cleared:
  fixes m :: hash_map
  assumes "length hash = DV" and "\<forall>i<DV. hash ! i < map_size" and "\<forall>i<DV. \<not> bit (m (hash ! i)) i"
  shows "check_hash m hash = Some 0"
proof (cases "check_hash m hash")
  case None
  then show ?thesis
    using check_hash_rule [where m = m and hash = hash] assms(1,2) by auto
next
  case (Some w)
  then show ?thesis using check_hash_zero [OF Some] assms(3) by simp
qed

lemma hash_batch_values:
  assumes "hash_batch s n com_hash div_hash = Some (com', div')" and "j < n" and "i < DV"
  shows "com' ! j = com_horner (shingle s j)"
    and "div' ! (j * DV + i) = div_horner i (shingle s j)"
proof -
  note D = hash_batch_SomeD [OF assms(1)]
  show "com' ! j = com_horner (shingle s j)" using D(7) [of j] assms(2) by simp
  have "j < max n 1" using assms(2) by simp
  then show "div' ! (j * DV + i) = div_horner i (shingle s j)" using D(8) assms(3) by simp
qed

lemma aggregate_aligned:
  assumes "hash_batch s n com_hash div_hash = Some (com', div')" and "j < n"
  shows "\<exists>hash. aggregate com' 0 div' 0 j = Some hash \<and> length hash = DV
           \<and> (\<forall>i<DV. hash ! i = com' ! j + ucast (div' ! (j * DV + i)))
           \<and> (\<forall>i<DV. hash ! i < map_size)"
proof -
  have "Suc j * DV \<le> n * DV" using assms(2) by (intro mult_le_mono1) simp
  then have fit: "0 + j < length com'" "0 + (j * DV + DV) \<le> length div'"
    using hash_batch_lengths [OF assms(1)] assms(2) by (auto simp: max_def DV_def split: if_splits)
  then obtain hash where h: "aggregate com' 0 div' 0 j = Some hash"
    and len: "length hash = DV"
    and val: "\<forall>i<DV. hash ! i = com' ! (0 + j) + ucast (div' ! (0 + (j * DV + i)))"
    using aggregate_rule [where com_ctr = com' and co = 0 and div_ctr = div' and d = 0 and j = j]
    by (auto split: option.splits)
  have "hash ! i < map_size" if "i < DV" for i
  proof -
    have c: "uint (com' ! j) < 1000000007"
      using hash_batch_values(1) [OF assms that] com_horner_lt by simp
    have d: "uint (div' ! (j * DV + i)) < 67"
      using hash_batch_values(2) [OF assms that] div_horner_lt [OF that] by simp
    show ?thesis using address_in_map(2) [OF c d] val that by simp
  qed
  then show ?thesis using h len val by auto
qed

lemma hash_batch_out_of_bounds:
  assumes "length com_hash \<le> n \<or> length div_hash < (n + 1) * DV \<or> length s < n + L" and "0 < n"
  shows "hash_batch s n com_hash div_hash = None"
proof (cases "hash_batch s n com_hash div_hash")
  case None
  then show ?thesis .
next
  case (Some r)
  obtain com' div' where r: "r = (com', div')" by (cases r)
  note D = hash_batch_SomeD [OF Some [unfolded r]]
  have "max n 1 = n" using assms(2) by simp
  then have "(n + 1) * DV \<le> length div_hash" "n < length com_hash" "n + L \<le> length s"
    using D(1,2,4) assms(2) by simp_all
  then show ?thesis using assms(1) by simp
qed

subsection \<open>Two small runs, evaluated\<close>


lemma check_batch_example1:
  "check_batch ((\<lambda>a. 255)(8 := 0)) 1 [5] 0 [3, 3, 3, 3, 3, 3, 3, 3] 0 gather_init
   = Some \<lparr>count = 1, residue = 0, max_count = 1\<rparr>"
  by code_simp

lemma check_batch_example2:
  "check_batch ((\<lambda>a. 255)(8 := 0)) 1 [6] 0 [3, 3, 3, 3, 3, 3, 3, 3] 0
     \<lparr>count = 1, residue = 0, max_count = 1\<rparr>
   = Some \<lparr>count = 0, residue = 0, max_count = 1\<rparr>"
  by code_simp

section \<open>The byte permutation\<close>

lemma probe_finds:
  assumes "\<not> a (r + of_nat d)"
  shows "\<exists>r'. probe a r = Some r' \<and> \<not> a r'"
  using assms
proof (induction d arbitrary: r)
  case 0
  then show ?case by (subst probe.simps) simp
next
  case (Suc d)
  show ?case
  proof (cases "a r")
    case False
    then show ?thesis by (subst probe.simps) simp
  next
    case True
    have e: "r + 1 + of_nat d = r + of_nat (Suc d)" by simp
    have "\<not> a (r + 1 + of_nat d)" unfolding e by (rule Suc.prems)
    then obtain r' where "probe a (r + 1) = Some r'" "\<not> a r'" using Suc.IH by blast
    then show ?thesis using True by (subst probe.simps) simp
  qed
qed

lemma probe_free:
  fixes a :: "8 word \<Rightarrow> bool"
  assumes "\<not> a x"
  shows "\<exists>r'. probe a r = Some r' \<and> \<not> a r'"
proof -
  have "r + of_nat (unat (x - r)) = x" by simp
  then show ?thesis using probe_finds [of a r "unat (x - r)"] assms by simp
qed

lemma card_bytes: "card (UNIV :: 8 word set) = 256"
  by (simp add: card_word)

lemma free_slot:
  fixes a :: "8 word \<Rightarrow> bool"
  assumes "\<forall>x. a x = (x \<in> set xs)" and "length xs < 256"
  shows "\<exists>x. \<not> a x"
proof (rule ccontr)
  assume "\<not> (\<exists>x. \<not> a x)"
  then have "set xs = UNIV" using assms(1) by auto
  then have "card (set xs) = 256" using card_bytes by simp
  moreover have "card (set xs) \<le> length xs" by (rule card_length)
  ultimately show False using assms(2) by simp
qed

lemma rcp_fill_rule:
  assumes "length p0 = 256"
  shows "\<exists>a p. rcp_fill draw p0 = Some (a, p) \<and> length p = 256 \<and> distinct p"
proof -
  let ?body = "\<lambda>j (a, p). do {
        rand \<leftarrow> probe a (draw j);
        p \<leftarrow> wr p j rand;
        Some (a(rand := True), p) }"
  let ?I = "\<lambda>j (st :: (8 word \<Rightarrow> bool) \<times> 8 word list).
       length (snd st) = 256 \<and> distinct (take j (snd st))
       \<and> (\<forall>x. fst st x = (x \<in> set (take j (snd st))))"
  have "case for_upto 0 256 ?body (\<lambda>r. False, p0) of
           None \<Rightarrow> \<exists>j. 0 \<le> j \<and> j < (256::nat) \<and> \<not> True
         | Some st' \<Rightarrow> (\<forall>j. 0 \<le> j \<and> j < (256::nat) \<longrightarrow> True) \<and> ?I 256 st'"
  proof (rule for_upto_rule [where I = ?I and ok = "\<lambda>j. True"])
    show "(0::nat) \<le> 256" by simp
    show "?I 0 (\<lambda>r. False, p0)" using assms by simp
    fix j :: nat and st :: "(8 word \<Rightarrow> bool) \<times> 8 word list"
    assume j: "j < 256" and I: "?I j st"
    obtain a p where st: "st = (a, p)" by (cases st)
    have len: "length p = 256" and dist: "distinct (take j p)"
      and a: "\<forall>x. a x = (x \<in> set (take j p))"
      using I st by simp_all
    have "length (take j p) < 256" using j len by simp
    then obtain x where "\<not> a x" using free_slot [OF a] by blast
    then obtain r where r: "probe a (draw j) = Some r" and free: "\<not> a r"
      using probe_free by blast
    have w: "wr p j r = Some (p[j := r])" using j len by (simp add: wr_def)
    have b: "?body j st = Some (a(r := True), p[j := r])"
      unfolding st by (simp add: r w)
    have t: "take (Suc j) (p[j := r]) = take j p @ [r]"
      using j len by (simp add: take_Suc_conv_app_nth)
    have i1: "length (p[j := r]) = 256" using len by simp
    have nr: "r \<notin> set (take j p)" using a free by simp
    have i2: "distinct (take (Suc j) (p[j := r]))" unfolding t using dist nr by simp
    have i3: "\<forall>x. (a(r := True)) x = (x \<in> set (take (Suc j) (p[j := r])))"
      unfolding t using a by simp
    show "case ?body j st of None \<Rightarrow> \<not> True | Some y \<Rightarrow> True \<and> ?I (Suc j) y"
      unfolding b option.case fst_conv snd_conv using i1 i2 i3 by blast
  qed
  then obtain st' where s: "for_upto 0 256 ?body (\<lambda>r. False, p0) = Some st'"
    and I: "length (snd st') = 256 \<and> distinct (take 256 (snd st'))"
    by (cases "for_upto 0 256 ?body (\<lambda>r. False, p0)") auto
  obtain a p where st': "st' = (a, p)" by (cases st')
  have l: "length p = 256" using I st' by simp
  have d: "distinct (take 256 p)" using I st' by (simp only: snd_conv)
  have "take 256 p = p" using l by simp
  then have "distinct p" using d by simp
  then show ?thesis using l s st' unfolding rcp_fill_def by blast
qed

lemma rcp_no_duplicate:
  assumes "length p = 256" and "distinct p"
  shows "\<not> rcp_duplicate p"
proof
  assume "rcp_duplicate p"
  then obtain j i where "Suc j \<le> i" "i < 256" "p ! j = p ! i"
    unfolding rcp_duplicate_def list_ex_iff by auto
  then show False using assms by (simp add: nth_eq_iff_index_eq)
qed

lemma bij_unat_bytes: "bij_betw (unat :: 8 word \<Rightarrow> nat) UNIV {0..<256}"
proof (rule bij_betw_byWitness [where f' = of_nat])
  show "\<forall>a\<in>UNIV. (of_nat (unat a) :: 8 word) = a" by simp
  show "\<forall>a'\<in>{0..<256}. unat (of_nat a' :: 8 word) = a'"
    by (simp add: unat_of_nat)
  show "(unat :: 8 word \<Rightarrow> nat) ` UNIV \<subseteq> {0..<256}"
  proof
    fix k assume "k \<in> (unat :: 8 word \<Rightarrow> nat) ` UNIV"
    then obtain x :: "8 word" where k: "k = unat x" by blast
    have "unat x < 2 ^ LENGTH(8)" by (rule unsigned_less)
    then show "k \<in> {0..<256}" using k by simp
  qed
  show "(of_nat :: nat \<Rightarrow> 8 word) ` {0..<256} \<subseteq> UNIV" by simp
qed

subsection \<open>Gather over what scatter has just consumed\<close>







section \<open>The batches of a worker\<close>

declare batch_sizes.simps [simp del]

lemma batch_sizes_last: "batch_sizes bc lst bc bs = [bs]"
  by (subst batch_sizes.simps) simp

lemma batch_sizes_full:
  assumes "unat b < unat bc"
  shows "batch_sizes bc lst b bs = replicate (unat bc - unat b) bs @ [lst]"
  using assms
proof (induction "unat bc - unat b" arbitrary: b)
  case 0
  then show ?case by simp
next
  case (Suc d)
  have ne: "b \<noteq> bc" using Suc.prems by auto
  have "unat b + 1 < 2 ^ 32"
    using Suc.prems unsigned_less [of bc, where 'a = nat] by simp
  then have u: "unat (b + 1) = unat b + 1"
    using unat_add_lem [of b 1] by simp
  show ?case
  proof (cases "b + 1 = bc")
    case True
    then have "unat bc - unat b = 1" using u by simp
    then show ?thesis
      using ne True by (subst batch_sizes.simps) (simp add: batch_sizes_last)
  next
    case False
    then have "unat (b + 1) \<noteq> unat bc" by (simp add: word_unat_eq_iff)
    then have lt: "unat (b + 1) < unat bc" using Suc.prems u by linarith
    have d: "d = unat bc - unat (b + 1)" using Suc.hyps(2) u by simp
    have "batch_sizes bc lst (b + 1) bs = replicate (unat bc - unat (b + 1)) bs @ [lst]"
      by (rule Suc.hyps(1) [OF d lt])
    moreover have "unat bc - unat b = Suc (unat bc - unat (b + 1))" using lt u by simp
    ultimately show ?thesis
      using ne False by (subst batch_sizes.simps) simp
  qed
qed

lemma batch_plan_gather: "batch_plan N_gather = (12208, 252, 8192)"
  by (simp add: batch_plan_def N_gather_def NS_bytes_def L_def BATCH_SIZE_def Let_def)

lemma worker_batches_gather: "worker_batches N_gather = replicate 12207 8192 @ [252]"
proof -
  have "unat (1 :: 32 word) < unat (12208 :: 32 word)" by simp
  from batch_sizes_full [OF this, of 252 8192]
  show ?thesis by (simp add: worker_batches_def batch_plan_gather)
qed

lemma sum_unat_replicate: "sum_list (map unat (replicate k (x :: 32 word) @ [y])) = k * unat x + unat y"
  by (simp add: sum_list_replicate)

lemma gather_hash_counts_val: "gather_hash_counts = 8188 # replicate 12206 8192 @ [252]"
proof -
  have "replicate 12207 (8192 :: 32 word) = 8192 # replicate 12206 8192"
    using replicate_Suc [of 12206 "8192 :: 32 word"] by simp
  then show ?thesis
    by (simp add: gather_hash_counts_def worker_batches_gather LC_def L_def)
qed

subsection \<open>Consumers over arrays whose entries are in range\<close>




lemma hash_batch_fits:
  assumes "0 < n" and "n + L \<le> length s" and "n < length com_hash"
    and "(n + 1) * DV \<le> length div_hash"
  shows "\<exists>com' div'. hash_batch s n com_hash div_hash = Some (com', div')"
proof (cases "hash_batch s n com_hash div_hash")
  case None
  have "max n 1 = n" using assms(1) by simp
  then have "(max n 1 + 1) * DV \<le> length div_hash \<and> n < length com_hash
                 \<and> L \<le> length s \<and> (n = 0 \<or> n + L \<le> length s)"
    using assms by simp
  then show ?thesis
    using hash_batch_rule [where s = s and n = n and com_hash = com_hash and div_hash = div_hash]
    unfolding None option.case by blast
next
  case (Some r)
  then show ?thesis by (cases r) simp
qed

subsection \<open>Marked shingles under row-aligned addresses\<close>

text \<open>
  After scatter's \<^verbatim>\<open>worker3_thread\<close> has run from the map of all ones, \<^verbatim>\<open>check_hash\<close> on
  the addresses \<open>com[j] + div[j*DV + i]\<close> of a hashed shingle whose bytes equal those of a
  consumed reference shingle returns 0.  This is about addresses formed with both offsets 0,
  as \<^verbatim>\<open>check_batch\<close> forms them when it is handed the starts of the two arrays.
\<close>

lemma aligned_check_finds_marked:
  assumes run: "scatter_worker3 memset_ones LC batches = Some m"
    and b: "b < length batches" "batches ! b = (bs, com_r, div_r)"
    and hr: "hash_batch sr (unat bs) cr0 dr0 = Some (com_r, div_r)"
    and k: "(if b = 0 then LC else 0) \<le> k" "k < unat bs"
    and ht: "hash_batch st nt ct0 dt0 = Some (com_t, div_t)"
    and j: "j < nt"
    and eq: "shingle st j = shingle sr k"
  shows "\<exists>hash. aggregate com_t 0 div_t 0 j = Some hash
           \<and> (\<forall>i<DV. hash ! i = com_t ! j + ucast (div_t ! (j * DV + i)))
           \<and> check_hash m hash = Some 0"
proof -
  obtain hash where h: "aggregate com_t 0 div_t 0 j = Some hash" and len: "length hash = DV"
    and val: "\<forall>i<DV. hash ! i = com_t ! j + ucast (div_t ! (j * DV + i))"
    and rng: "\<forall>i<DV. hash ! i < map_size"
    using aggregate_aligned [OF ht j] by blast
  have "\<not> bit (m (hash ! i)) i" if i: "i < DV" for i
  proof -
    have "com_t ! j = com_r ! k"
      using hash_batch_values(1) [OF ht j i] hash_batch_values(1) [OF hr k(2) i] eq by simp
    moreover have "div_t ! (j * DV + i) = div_r ! (k * DV + i)"
      using hash_batch_values(2) [OF ht j i] hash_batch_values(2) [OF hr k(2) i] eq by simp
    ultimately have "hash ! i = com_r ! k + ucast (div_r ! (k * DV + i))"
      using val i by simp
    then show ?thesis
      using scatter_worker3_marks [OF run b k i] by simp
  qed
  then have "check_hash m hash = Some 0"
    using check_hash_cleared [OF len rng] by simp
  then show ?thesis using h val by blast
qed
section \<open>Claims about the rolling hashes\<close>

text \<open>
  Claim C2 (rolling-hash consistency).  Let \<open>s\<close> hold at least \<open>n + L\<close> bytes, \<open>n > 0\<close>,
  and let the hash arrays have room for the \<open>n + 1\<close> rows that \<^verbatim>\<open>hash_batch\<close> writes.
  Then \<^verbatim>\<open>hash_batch\<close> returns, and in the arrays it leaves: \<open>com[0]\<close> is the Horner value
  of shingle 0; for every offset \<open>j < n\<close>, \<open>com[j+1]\<close> is the roll of \<open>com[j]\<close> with the
  bytes \<open>s[j]\<close>, \<open>s[j+L]\<close> and equals the from-scratch Horner value of shingle \<open>j + 1\<close>;
  row \<open>j\<close> of \<open>div\<close> holds, for each co-filter, the from-scratch diversified hash of
  shingle \<open>j\<close>, and row \<open>j + 1\<close> (for \<open>j + 1 < n\<close>) is the diversified roll of row
  \<open>j\<close>.  And one call of \<^verbatim>\<open>update_div_hashes\<close>, as \<^verbatim>\<open>hash_batch\<close> makes it for offset
  \<open>j > 0\<close>, on any array whose row \<open>j\<close> holds the diversified hashes of shingle
  \<open>j - 1\<close>, rolls each of them with \<open>s[j-1]\<close>, \<open>s[j-1+L]\<close> and leaves the from-scratch
  diversified hashes of shingle \<open>j\<close> in rows \<open>j\<close> and \<open>j + 1\<close>.
\<close>

theorem rolling_hash_consistency:
  assumes "0 < n" and "n + L \<le> length s" and "n < length com_hash"
    and "(n + 1) * DV \<le> length div_hash"
  shows "(\<exists>com' div'. hash_batch s n com_hash div_hash = Some (com', div')
           \<and> com' ! 0 = com_horner (shingle s 0)
           \<and> (\<forall>j<n. com' ! (j + 1) = com_roll (com' ! j) (s ! j) (s ! (j + L))
                   \<and> com' ! (j + 1) = com_horner (shingle s (j + 1)))
           \<and> (\<forall>j<n. \<forall>i<DV. div' ! (j * DV + i) = div_horner i (shingle s j))
           \<and> (\<forall>j<n - 1. \<forall>i<DV. div' ! ((j + 1) * DV + i)
                   = div_roll i (div' ! (j * DV + i)) (s ! j) (s ! (j + L))))
       \<and> (\<forall>j dh. 0 < j \<and> j + L \<le> length s \<and> (j + 2) * DV \<le> length dh
              \<and> (\<forall>i<DV. dh ! (j * DV + i) = div_horner i (shingle s (j - 1)))
            \<longrightarrow> (\<exists>dh'. update_div_hashes (j * DV) ((j + 1) * DV) s (j - 1) dh = Some dh'
                  \<and> (\<forall>i<DV. dh' ! (j * DV + i)
                               = div_roll i (dh ! (j * DV + i)) (s ! (j - 1)) (s ! (j - 1 + L))
                        \<and> dh' ! (j * DV + i) = div_horner i (shingle s j)
                        \<and> dh' ! ((j + 1) * DV + i) = div_horner i (shingle s j))))"
proof (intro conjI)
  obtain com' div' where hb: "hash_batch s n com_hash div_hash = Some (com', div')"
    using hash_batch_fits [OF assms] by blast
  note R = hash_batch_SomeD [OF hb]
  have mx: "max n 1 = n" using assms(1) by simp
  have a: "com' ! 0 = com_horner (shingle s 0)" using R(7) [of 0] by simp
  have b: "\<forall>j<n. com' ! (j + 1) = com_roll (com' ! j) (s ! j) (s ! (j + L))
                   \<and> com' ! (j + 1) = com_horner (shingle s (j + 1))"
  proof (intro allI impI)
    fix j assume j: "j < n"
    have 1: "com' ! j = com_horner (shingle s j)" using R(7) [of j] j by simp
    have 2: "com' ! (j + 1) = com_horner (shingle s (j + 1))" using R(7) [of "j + 1"] j by simp
    have "j + L < length s" using j assms(2) by simp
    then have "com_roll (com' ! j) (s ! j) (s ! (j + L)) = com_horner (shingle s (j + 1))"
      unfolding 1 using com_roll_shingle [of j s] by simp
    then show "com' ! (j + 1) = com_roll (com' ! j) (s ! j) (s ! (j + L))
                   \<and> com' ! (j + 1) = com_horner (shingle s (j + 1))"
      using 2 by simp
  qed
  have c: "\<forall>j<n. \<forall>i<DV. div' ! (j * DV + i) = div_horner i (shingle s j)"
    using R(8) unfolding mx by blast
  have d: "\<forall>j<n - 1. \<forall>i<DV. div' ! ((j + 1) * DV + i)
                   = div_roll i (div' ! (j * DV + i)) (s ! j) (s ! (j + L))"
  proof (intro allI impI)
    fix j i assume j: "j < n - 1" and i: "i < DV"
    have 1: "div' ! (j * DV + i) = div_horner i (shingle s j)" using c j i by simp
    have 2: "div' ! ((j + 1) * DV + i) = div_horner i (shingle s (j + 1))"
      using c [rule_format, of "j + 1" i] j i by simp
    have "j + L < length s" using j assms(2) by simp
    then have "div_roll i (div' ! (j * DV + i)) (s ! j) (s ! (j + L))
        = div_horner i (shingle s (j + 1))"
      unfolding 1 using div_roll_shingle [of j s i] i by simp
    then show "div' ! ((j + 1) * DV + i)
                   = div_roll i (div' ! (j * DV + i)) (s ! j) (s ! (j + L))"
      using 2 by simp
  qed
  show "\<exists>com' div'. hash_batch s n com_hash div_hash = Some (com', div')
           \<and> com' ! 0 = com_horner (shingle s 0)
           \<and> (\<forall>j<n. com' ! (j + 1) = com_roll (com' ! j) (s ! j) (s ! (j + L))
                   \<and> com' ! (j + 1) = com_horner (shingle s (j + 1)))
           \<and> (\<forall>j<n. \<forall>i<DV. div' ! (j * DV + i) = div_horner i (shingle s j))
           \<and> (\<forall>j<n - 1. \<forall>i<DV. div' ! ((j + 1) * DV + i)
                   = div_roll i (div' ! (j * DV + i)) (s ! j) (s ! (j + L)))"
    using hb a b c d by blast
next
  show "\<forall>j dh. 0 < j \<and> j + L \<le> length s \<and> (j + 2) * DV \<le> length dh
              \<and> (\<forall>i<DV. dh ! (j * DV + i) = div_horner i (shingle s (j - 1)))
            \<longrightarrow> (\<exists>dh'. update_div_hashes (j * DV) ((j + 1) * DV) s (j - 1) dh = Some dh'
                  \<and> (\<forall>i<DV. dh' ! (j * DV + i)
                               = div_roll i (dh ! (j * DV + i)) (s ! (j - 1)) (s ! (j - 1 + L))
                        \<and> dh' ! (j * DV + i) = div_horner i (shingle s j)
                        \<and> dh' ! ((j + 1) * DV + i) = div_horner i (shingle s j)))"
  proof (intro allI impI, elim conjE)
    fix j and dh :: "8 word list"
    assume j: "0 < j" and js: "j + L \<le> length s" and len: "(j + 2) * DV \<le> length dh"
      and row: "\<forall>i<DV. dh ! (j * DV + i) = div_horner i (shingle s (j - 1))"
    have sep: "j * DV + DV \<le> (j + 1) * DV" by simp
    have fit1: "(j + 1) * DV + DV \<le> length dh" using len by simp
    have fit2: "j - 1 + L < length s" using j js by simp
    note U = update_div_hashes_rule [OF sep, where s = s and so = "j - 1" and dh = dh]
    obtain dh' where u: "update_div_hashes (j * DV) ((j + 1) * DV) s (j - 1) dh = Some dh'"
      using U fit1 fit2 by (cases "update_div_hashes (j * DV) ((j + 1) * DV) s (j - 1) dh") auto
    have V: "\<forall>i<DV. dh' ! (j * DV + i)
                  = div_roll i (dh ! (j * DV + i)) (s ! (j - 1)) (s ! (j - 1 + L))
             \<and> dh' ! ((j + 1) * DV + i)
                  = div_roll i (dh ! (j * DV + i)) (s ! (j - 1)) (s ! (j - 1 + L))"
      using U unfolding u option.case by blast
    have W: "div_roll i (dh ! (j * DV + i)) (s ! (j - 1)) (s ! (j - 1 + L))
           = div_horner i (shingle s j)" if i: "i < DV" for i
    proof -
      have "dh ! (j * DV + i) = div_horner i (shingle s (j - 1))" using row i by simp
      moreover have "Suc (j - 1) = j" using j by simp
      ultimately show ?thesis using div_roll_shingle [OF fit2 i] by simp
    qed
    have "\<forall>i<DV. dh' ! (j * DV + i)
                               = div_roll i (dh ! (j * DV + i)) (s ! (j - 1)) (s ! (j - 1 + L))
                        \<and> dh' ! (j * DV + i) = div_horner i (shingle s j)
                        \<and> dh' ! ((j + 1) * DV + i) = div_horner i (shingle s j)"
      using V W by simp
    then show "\<exists>dh'. update_div_hashes (j * DV) ((j + 1) * DV) s (j - 1) dh = Some dh'
                  \<and> (\<forall>i<DV. dh' ! (j * DV + i)
                               = div_roll i (dh ! (j * DV + i)) (s ! (j - 1)) (s ! (j - 1 + L))
                        \<and> dh' ! (j * DV + i) = div_horner i (shingle s j)
                        \<and> dh' ! ((j + 1) * DV + i) = div_horner i (shingle s j))"
      using u by blast
  qed
qed

theorem rolling_hash_consistency_witness:
  "(0::nat) < 2 \<and> 2 + L \<le> length [1, 2, 3, 4, 5, 6, 7 :: 8 word]
   \<and> (2::nat) < length [0, 0, 0 :: 64 word]
   \<and> (2 + 1) * DV \<le> length [0, 0, 0, 0, 0, 0, 0, 0, 0, 0, 0, 0, 0, 0, 0, 0,
                               0, 0, 0, 0, 0, 0, 0, 0 :: 8 word]
   \<and> (\<exists>com' div'. hash_batch [1, 2, 3, 4, 5, 6, 7] 2 [0, 0, 0]
          [0, 0, 0, 0, 0, 0, 0, 0, 0, 0, 0, 0, 0, 0, 0, 0, 0, 0, 0, 0, 0, 0, 0, 0]
          = Some (com', div')
        \<and> com' ! 2 = com_roll (com' ! 1) 2 7
        \<and> com' ! 2 = com_horner (shingle [1, 2, 3, 4, 5, 6, 7] 2)
        \<and> div' ! (1 * DV + 3) = div_horner 3 (shingle [1, 2, 3, 4, 5, 6, 7] 1)
        \<and> div' ! (1 * DV + 3) = div_roll 3 (div' ! 3) 1 6)
   \<and> (\<exists>dh'. update_div_hashes (1 * DV) ((1 + 1) * DV) [1, 2, 3, 4, 5, 6, 7] (1 - 1)
          [42, 33, 15, 45, 62, 19, 26, 13, 42, 33, 15, 45, 62, 19, 26, 13,
           0, 0, 0, 0, 0, 0, 0, 0] = Some dh'
        \<and> dh' ! (1 * DV + 3) = div_horner 3 (shingle [1, 2, 3, 4, 5, 6, 7] 1)
        \<and> dh' ! ((1 + 1) * DV + 3) = div_horner 3 (shingle [1, 2, 3, 4, 5, 6, 7] 1))"
proof -
  let ?s = "[1, 2, 3, 4, 5, 6, 7] :: 8 word list"
  let ?z = "[0, 0, 0, 0, 0, 0, 0, 0, 0, 0, 0, 0, 0, 0, 0, 0, 0, 0, 0, 0, 0, 0, 0, 0] :: 8 word list"
  let ?dh = "[42, 33, 15, 45, 62, 19, 26, 13, 42, 33, 15, 45, 62, 19, 26, 13,
           0, 0, 0, 0, 0, 0, 0, 0] :: 8 word list"
  have h1: "(0::nat) < 2" by simp
  have h2: "2 + L \<le> length ?s" by (simp add: L_def)
  have h3: "(2::nat) < length [0, 0, 0 :: 64 word]" by simp
  have h4: "(2 + 1) * DV \<le> length ?z" by (simp add: DV_def)
  note T = rolling_hash_consistency [OF h1 h2 h3 h4]
  have row: "list_all (\<lambda>i. ?dh ! (1 * DV + i) = div_horner i (shingle ?s (1 - 1))) [0..<DV]"
    by code_simp
  have row': "\<forall>i<DV. ?dh ! (1 * DV + i) = div_horner i (shingle ?s (1 - 1))"
    using row by (simp add: list_all_iff)
  have p: "(0::nat) < 1 \<and> 1 + L \<le> length ?s \<and> (1 + 2) * DV \<le> length ?dh
       \<and> (\<forall>i<DV. ?dh ! (1 * DV + i) = div_horner i (shingle ?s (1 - 1)))"
    using row' by (simp add: L_def DV_def)
  have i3: "(3::nat) < DV" by (simp add: DV_def)
  from T obtain com' div' where
    A: "hash_batch ?s 2 [0, 0, 0] ?z = Some (com', div')"
       "\<forall>j<2. com' ! (j + 1) = com_roll (com' ! j) (?s ! j) (?s ! (j + L))
                   \<and> com' ! (j + 1) = com_horner (shingle ?s (j + 1))"
       "\<forall>j<2. \<forall>i<DV. div' ! (j * DV + i) = div_horner i (shingle ?s j)"
       "\<forall>j<2 - 1. \<forall>i<DV. div' ! ((j + 1) * DV + i)
                   = div_roll i (div' ! (j * DV + i)) (?s ! j) (?s ! (j + L))"
    by blast
  have lt: "(1::nat) < 2" by simp
  note A2 = A(2) [rule_format, OF lt]
  have a1: "com' ! 2 = com_roll (com' ! 1) 2 7"
    using A2 [THEN conjunct1] by (simp add: L_def numeral_2_eq_2)
  have a2: "com' ! 2 = com_horner (shingle ?s 2)"
    using A2 [THEN conjunct2] by (simp add: numeral_2_eq_2)
  have a3: "div' ! (1 * DV + 3) = div_horner 3 (shingle ?s 1)"
    using A(3) [rule_format, of 1 3] i3 by simp
  have a4: "div' ! (1 * DV + 3) = div_roll 3 (div' ! 3) 1 6"
    using A(4) [rule_format, of 0 3] i3 by (simp add: L_def)
  from T have "\<exists>dh'. update_div_hashes (1 * DV) ((1 + 1) * DV) ?s (1 - 1) ?dh = Some dh'
                  \<and> (\<forall>i<DV. dh' ! (1 * DV + i)
                               = div_roll i (?dh ! (1 * DV + i)) (?s ! (1 - 1)) (?s ! (1 - 1 + L))
                        \<and> dh' ! (1 * DV + i) = div_horner i (shingle ?s 1)
                        \<and> dh' ! ((1 + 1) * DV + i) = div_horner i (shingle ?s 1))"
    using p by blast
  then obtain dh' where
    B: "update_div_hashes (1 * DV) ((1 + 1) * DV) ?s (1 - 1) ?dh = Some dh'"
       "\<forall>i<DV. dh' ! (1 * DV + i)
                               = div_roll i (?dh ! (1 * DV + i)) (?s ! (1 - 1)) (?s ! (1 - 1 + L))
                        \<and> dh' ! (1 * DV + i) = div_horner i (shingle ?s 1)
                        \<and> dh' ! ((1 + 1) * DV + i) = div_horner i (shingle ?s 1)"
    by blast
  have b1: "dh' ! (1 * DV + 3) = div_horner 3 (shingle ?s 1)" using B(2) i3 by blast
  have b2: "dh' ! ((1 + 1) * DV + 3) = div_horner 3 (shingle ?s 1)" using B(2) i3 by blast
  show ?thesis
    using h1 h2 h3 h4 A(1) a1 a2 a3 a4 B(1) b1 b2 by blast
qed

text \<open>
  Claim C9 (bias bound of the diversified roll).  For every co-filter \<open>i < DV\<close> and all
  bytes: \<open>C_DIV[i]\<close> is \<open>B_DIV[i] ^ L mod M_DIV\<close>; \<open>C_DIV[i] * b\<close> stays below
  \<open>256 * M_DIV\<close> for every byte \<open>b\<close>; and the 64-bit value of
  \<^verbatim>\<open>256*M_DIV + s[L] + hash * B_DIV[i] - C_DIV[i] * s[0]\<close> is the integer value of that
  expression, which is not negative: no step of it wraps around.  This holds for every
  stored hash byte, in particular for those below \<open>M_DIV\<close>.
\<close>

theorem div_roll_no_underflow:
  assumes "i < DV"
  shows "uint (C_DIV i) = uint (B_DIV i) ^ L mod uint M_DIV
       \<and> uint (C_DIV i) * uint (b :: 8 word) < 256 * uint M_DIV
       \<and> uint (div_roll_pre i h s0 sL)
           = 256 * uint M_DIV + uint sL + uint h * uint (B_DIV i) - uint (C_DIV i) * uint s0
       \<and> 0 \<le> 256 * uint M_DIV + uint sL + uint h * uint (B_DIV i) - uint (C_DIV i) * uint s0"
proof -
  have 1: "uint (C_DIV i) = uint (B_DIV i) ^ L mod uint M_DIV"
    using C_DIV_power [OF assms] by (simp add: L_def uint_M_DIV)
  have 2: "uint (C_DIV i) * uint b < 256 * uint M_DIV"
    using C_DIV_times_byte [OF assms, of b] by (simp add: uint_M_DIV)
  have 3: "uint (div_roll_pre i h s0 sL)
         = 256 * uint M_DIV + uint sL + uint h * uint (B_DIV i) - uint (C_DIV i) * uint s0"
    using uint_div_roll_pre [OF assms, of h s0 sL] by (simp add: uint_M_DIV)
  have 4: "0 \<le> 256 * uint M_DIV + uint sL + uint h * uint (B_DIV i) - uint (C_DIV i) * uint s0"
    using uint_ge_0 [of "div_roll_pre i h s0 sL"] unfolding 3 .
  show ?thesis by (intro conjI 1 2 3 4)
qed

theorem div_roll_no_underflow_witness:
  "(6::nat) < DV
   \<and> uint (C_DIV 6) = uint (B_DIV 6) ^ L mod uint M_DIV
   \<and> uint (C_DIV 6) * uint (255 :: 8 word) < 256 * uint M_DIV
   \<and> uint (div_roll_pre 6 0 255 0)
       = 256 * uint M_DIV + uint (0 :: 8 word) + uint (0 :: 8 word) * uint (B_DIV 6)
         - uint (C_DIV 6) * uint (255 :: 8 word)
   \<and> 0 \<le> 256 * uint M_DIV + uint (0 :: 8 word) + uint (0 :: 8 word) * uint (B_DIV 6)
         - uint (C_DIV 6) * uint (255 :: 8 word)"
  using div_roll_no_underflow [of 6 255 0 255 0] by (simp add: DV_def)

section \<open>Claim about the batch count\<close>

lemma program_totals: "unat n_scatter = 1000000000" "unat N_gather = 99999996"
  by (simp_all add: n_scatter_def ns_bytes_def N_gather_def NS_bytes_def L_def)

text \<open>
  Claim C10 (batch-count configuration error).  For a total that fits 32 bits, as the
  totals \<open>n\<close> of scatter and \<open>N\<close> of gather do, the batch count computed at the start of
  \<^verbatim>\<open>main\<close> is the integer quotient by \<open>BATCH_SIZE\<close>, incremented exactly when the
  remainder is not zero, that is the ceiling of the total divided by \<open>BATCH_SIZE\<close>; and
  \<^verbatim>\<open>main\<close> ends with exit code 10, whatever the allocation of the map would have
  returned, if and only if that batch count is below 3.
\<close>

theorem batch_count_error:
  fixes tot :: "64 word"
  assumes "unat tot < 2 ^ 32"
  shows "unat (batch_count_of tot) = unat tot div BATCH_SIZE + (if unat tot mod BATCH_SIZE = 0 then 0 else 1)
       \<and> unat (batch_count_of tot) = (unat tot + BATCH_SIZE - 1) div BATCH_SIZE
       \<and> (main_start tot map_allocated = Inl (Exit 10)) = ((unat tot + BATCH_SIZE - 1) div BATCH_SIZE < 3)"
proof -
  have 1: "unat (batch_count_of tot) = unat tot div BATCH_SIZE + (if unat tot mod BATCH_SIZE = 0 then 0 else 1)"
    by (rule batch_count_of_unat [OF assms])
  have 2: "unat (batch_count_of tot) = (unat tot + BATCH_SIZE - 1) div BATCH_SIZE"
    unfolding 1 using ceil_div [of BATCH_SIZE "unat tot"] by (simp add: BATCH_SIZE_def)
  have 3: "(batch_count_of tot < 3) = ((unat tot + BATCH_SIZE - 1) div BATCH_SIZE < 3)"
    unfolding word_less_nat_alt 2 by simp
  have 4: "(main_start tot map_allocated = Inl (Exit 10)) = (batch_count_of tot < 3)"
    by (simp add: main_start_def Let_def)
  show ?thesis
    by (intro conjI) (rule 1, rule 2, rule trans [OF 4 3])
qed


theorem batch_count_error_witness:
  "unat n_scatter < 2 ^ 32
   \<and> unat (batch_count_of n_scatter)
       = unat n_scatter div BATCH_SIZE + (if unat n_scatter mod BATCH_SIZE = 0 then 0 else 1)
   \<and> unat (batch_count_of n_scatter) = (unat n_scatter + BATCH_SIZE - 1) div BATCH_SIZE
   \<and> (main_start n_scatter True = Inl (Exit 10))
       = ((unat n_scatter + BATCH_SIZE - 1) div BATCH_SIZE < 3)"
proof -
  have h: "unat n_scatter < 2 ^ 32" by (simp add: program_totals)
  show ?thesis using h batch_count_error [OF h, of True] by simp
qed

section \<open>Claims about the map and the consume steps\<close>

text \<open>
  Claim C1 (filter soundness, no false negatives).  The claim does not hold for gather's
  first batch.  \<open>first_batch_trip\<close> hashes one first batch with \<^verbatim>\<open>hash_batch\<close>, lets
  scatter's \<^verbatim>\<open>worker3_thread\<close> consume it from the map of all ones (rows \<open>LC\<close> and up,
  as scatter does for its first batch), and checks the same hashes against the resulting
  map twice: as gather's \<^verbatim>\<open>worker3_thread\<close> does for its first batch,
  \<^verbatim>\<open>check_batch(batch_size-LC, com_ctr_A+LC, div_ctr_A+LC)\<close>, and with the pointer into
  \<open>div_ctr\<close> advanced by \<open>LC\<close> rows, \<open>LC * DV\<close> bytes.  For the 14 bytes below each of
  the 6 shingles that gather checks was marked by scatter.  Gather's call finds none of
  them (\<open>count = 0\<close>); the row-aligned call finds all 6 (\<open>residue = 1\<close>, since a hit is
  counted only after \<open>LP - L = 5\<close> hits in a row).  With \<open>div_ctr_A + LC\<close> the address of
  co-filter \<open>i\<close> of shingle \<open>LC + j\<close> is \<open>com[LC + j] + div[LC + j*DV + i]\<close>, which takes
  the diversified hash of another co-filter of shingle \<open>j\<close> or \<open>j + 1\<close>.
\<close>

theorem gather_first_batch_misaligned:
  "first_batch_trip [0, 0, 0, 0, 1, 2, 3, 4, 5, 6, 7, 8, 9, 10]
   = Some (\<lparr>count = 0, residue = 0, max_count = 0\<rparr>,
           \<lparr>count = 6, residue = 1, max_count = 6\<rparr>)"
  by code_simp



text \<open>
  Claim C4 (run-detector semantics).  Two consecutive calls of \<^verbatim>\<open>check_batch\<close> leave the
  state that the run detector of the specification reaches on the filter results of the
  first batch followed by those of the second: per shingle, \<open>count\<close> is incremented when
  \<^verbatim>\<open>check_hash\<close> returns 0 and reset to 0 otherwise, \<open>residue\<close> is incremented exactly when
  the new \<open>count\<close> exceeds \<open>LP - L\<close>, and \<open>max_count\<close> becomes the larger of itself and the
  new \<open>count\<close>.  \<open>count\<close> is not reset between the calls, and \<open>max_count\<close> is the maximum of
  its initial value and of all values \<open>count\<close> has taken.
\<close>

theorem run_detector_semantics:
  assumes "check_batch m n1 com1 co1 div1 d1 st = Some st1"
    and "check_batch m n2 com2 co2 div2 d2 st1 = Some st2"
  shows "st1 = spec_run (batch_passes m n1 com1 co1 div1 d1) st
       \<and> st2 = spec_run (batch_passes m n1 com1 co1 div1 d1 @ batch_passes m n2 com2 co2 div2 d2) st
       \<and> count st2 = last (count st #
             count_trace (batch_passes m n1 com1 co1 div1 d1 @ batch_passes m n2 com2 co2 div2 d2)
               (count st))
       \<and> max_count st2 = Max (set (max_count st #
             count_trace (batch_passes m n1 com1 co1 div1 d1 @ batch_passes m n2 com2 co2 div2 d2)
               (count st)))"
proof -
  have 1: "st1 = spec_run (batch_passes m n1 com1 co1 div1 d1) st"
    using check_batch_rule [where m = m and n = n1 and com_ctr = com1 and co = co1 and div_ctr = div1
        and d = d1 and st = st] assms(1) by simp
  have "st2 = spec_run (batch_passes m n2 com2 co2 div2 d2) st1"
    using check_batch_rule [where m = m and n = n2 and com_ctr = com2 and co = co2 and div_ctr = div2
        and d = d2 and st = st1] assms(2) by simp
  then have 2: "st2 = spec_run (batch_passes m n1 com1 co1 div1 d1 @ batch_passes m n2 com2 co2 div2 d2) st"
    unfolding 1 spec_run_append .
  show ?thesis
    by (intro conjI 1 2) (simp_all only: 2 count_spec_run max_count_spec_run)
qed


theorem run_detector_semantics_witness:
  "check_batch ((\<lambda>a. 255)(8 := 0)) 1 [5] 0 [3, 3, 3, 3, 3, 3, 3, 3] 0 gather_init
     = Some \<lparr>count = 1, residue = 0, max_count = 1\<rparr>
   \<and> check_batch ((\<lambda>a. 255)(8 := 0)) 1 [6] 0 [3, 3, 3, 3, 3, 3, 3, 3] 0
       \<lparr>count = 1, residue = 0, max_count = 1\<rparr>
     = Some \<lparr>count = 0, residue = 0, max_count = 1\<rparr>
   \<and> \<lparr>count = 0, residue = 0, max_count = 1\<rparr>
     = spec_run (batch_passes ((\<lambda>a. 255)(8 := 0)) 1 [5] 0 [3, 3, 3, 3, 3, 3, 3, 3] 0
                 @ batch_passes ((\<lambda>a. 255)(8 := 0)) 1 [6] 0 [3, 3, 3, 3, 3, 3, 3, 3] 0)
         gather_init
   \<and> max_count \<lparr>count = 0, residue = 0, max_count = 1 :: 64 word\<rparr>
     = Max (set (max_count gather_init #
         count_trace (batch_passes ((\<lambda>a. 255)(8 := 0)) 1 [5] 0 [3, 3, 3, 3, 3, 3, 3, 3] 0
                      @ batch_passes ((\<lambda>a. 255)(8 := 0)) 1 [6] 0 [3, 3, 3, 3, 3, 3, 3, 3] 0)
           (count gather_init)))"
  using run_detector_semantics [OF check_batch_example1 check_batch_example2]
    check_batch_example1 check_batch_example2
  by blast

text \<open>
  Claim C7 (memory safety of \<^verbatim>\<open>hash_batch\<close> on a full batch).  The claim does not hold:
  with \<open>hash_count = BATCH_SIZE\<close>, each of the three container arrays alone, at its declared
  size, makes the call leave its bounds (\<open>com_hash[BATCH_SIZE]\<close>, \<open>div_hash[BATCH_SIZE*DV + id]\<close>
  and \<open>s[BATCH_SIZE - 1 + L]\<close> are each one past the end).
\<close>

theorem hash_batch_overruns_containers:
  assumes "length com_hash = BATCH_SIZE \<or> length div_hash = BATCH_SIZE * DV
           \<or> length s = BATCH_SIZE + LC"
  shows "hash_batch s BATCH_SIZE com_hash div_hash = None"
proof (rule hash_batch_out_of_bounds)
  show "0 < BATCH_SIZE" by (simp add: BATCH_SIZE_def)
  show "length com_hash \<le> BATCH_SIZE \<or> length div_hash < (BATCH_SIZE + 1) * DV
        \<or> length s < BATCH_SIZE + L"
    using assms by (auto simp: DV_def LC_def L_def)
qed

theorem hash_batch_overruns_containers_witness:
  "(length (replicate BATCH_SIZE (0 :: 64 word)) = BATCH_SIZE)
   \<and> hash_batch (replicate (BATCH_SIZE + LC) 0) BATCH_SIZE (replicate BATCH_SIZE 0)
        (replicate (BATCH_SIZE * DV) 0) = None"
  using hash_batch_overruns_containers
    [of "replicate BATCH_SIZE 0" "replicate (BATCH_SIZE * DV) 0" "replicate (BATCH_SIZE + LC) 0"]
  by simp

section \<open>Claim about the byte permutation\<close>

text \<open>
  Claim C8 (permutation post-condition).  For every sequence of draws, and with \<open>p\<close> an
  array of 256 bytes, \<^verbatim>\<open>rcp_generator\<close> terminates (every probing loop finds a free slot)
  and returns normally with an array that holds every byte value exactly once, that is a
  bijection on \<open>[0,256)\<close>; the branch that prints \<open>RCP ERROR\<close> and exits with code 25 is
  not taken.
\<close>

theorem rcp_generator_permutation:
  assumes "length p0 = 256"
  shows "\<exists>p. rcp_generator draw p0 = Some (Inr p) \<and> length p = 256 \<and> distinct p
           \<and> set p = UNIV \<and> bij_betw (\<lambda>j. unat (p ! j)) {0..<256} {0..<256}"
proof -
  obtain a p where f: "rcp_fill draw p0 = Some (a, p)" and len: "length p = 256"
    and dist: "distinct p"
    using rcp_fill_rule [OF assms] by blast
  have g: "rcp_generator draw p0 = Some (Inr p)"
    using f rcp_no_duplicate [OF len dist] by (simp add: rcp_generator_def)
  have "card (set p) = 256" using dist len by (simp add: distinct_card)
  then have all: "set p = UNIV"
    using card_bytes by (intro card_subset_eq) simp_all
  have "bij_betw (\<lambda>j. p ! j) {..<length p} (set p)" by (rule bij_betw_nth [OF dist refl refl])
  then have "bij_betw (\<lambda>j. p ! j) {0..<256} UNIV" 
    unfolding len all by (simp add: atLeast0LessThan)
  then have "bij_betw (unat \<circ> (\<lambda>j. p ! j)) {0..<256} {0..<256}"
    using bij_unat_bytes by (rule bij_betw_trans)
  then have "bij_betw (\<lambda>j. unat (p ! j)) {0..<256} {0..<256}" by (simp add: comp_def)
  then show ?thesis using g len dist all by blast
qed

theorem rcp_generator_permutation_witness:
  "length (replicate 256 (0 :: 8 word)) = 256
   \<and> (\<exists>p. rcp_generator (\<lambda>j. 0) (replicate 256 0) = Some (Inr p) \<and> length p = 256 \<and> distinct p
           \<and> set p = UNIV \<and> bij_betw (\<lambda>j. unat (p ! j)) {0..<256} {0..<256})"
proof -
  have h: "length (replicate 256 (0 :: 8 word)) = 256" by simp
  show ?thesis
    by (rule conjI [OF h rcp_generator_permutation [OF h]])
qed

section \<open>Claim about the round trip\<close>




section \<open>Claim about the test stream\<close>

text \<open>
  Claim C5 (gather consumes exactly the test stream).  The claim does not hold for the
  program: \<^verbatim>\<open>worker1_thread\<close> does seek to byte \<open>ns\<close>, but the batch sizes it reads add up
  to \<open>N = NS - L + 1\<close> bytes, so the stream ends at \<open>ns + N\<close>, which is \<open>L - 1\<close> bytes before
  \<open>ns + NS\<close>; and \<^verbatim>\<open>worker3_thread\<close> hands \<open>N - LC\<close> shingles to \<^verbatim>\<open>check_hash\<close>, not
  the \<open>N\<close> shingles of the test stream.
\<close>

theorem gather_reads_fewer_bytes:
  "unat N_gather = 99999996
   \<and> gather_read_end = unat ns_bytes + 99999996
   \<and> gather_read_end < unat ns_bytes + unat NS_bytes
   \<and> gather_shingles_checked = 99999992
   \<and> gather_shingles_checked < unat N_gather"
proof -
  have n: "unat N_gather = 99999996" by (rule program_totals)
  have e: "gather_read_end = unat ns_bytes + 99999996"
    unfolding gather_read_end_def worker_batches_gather sum_unat_replicate by simp
  have c: "gather_shingles_checked = 99999992"
  proof -
    have "sum_list (map unat (replicate 12206 (8192 :: 32 word) @ [252])) = 12206 * unat (8192 :: 32 word) + unat (252 :: 32 word)"
      by (rule sum_unat_replicate)
    then show ?thesis
      unfolding gather_shingles_checked_def gather_hash_counts_val by simp
  qed
  show ?thesis
    unfolding n e c by (simp add: NS_bytes_def)
qed


end
